theory Spec2Isabelle
  imports Complex_Main "HOL-Library.AList"
begin

section \<open>The memory simulation engine (src/memory_manager.py)\<close>

subsection \<open>Data model\<close>

text \<open>
  A frame is the dictionary \<^verbatim>\<open>{'status': ..., 'id': ...}\<close>. The code only ever writes the
  two status strings \<^verbatim>\<open>'free'\<close> and \<^verbatim>\<open>'allocated'\<close>; the id is \<^verbatim>\<open>None\<close> or an owner id.
\<close>

datatype frame_status = Free | Allocated

record frame =
  status :: frame_status
  frame_id :: "nat option"

definition free_frame :: frame where
  "free_frame = \<lparr>status = Free, frame_id = None\<rparr>"

definition allocated_frame :: "nat \<Rightarrow> frame" where
  "allocated_frame process_id = \<lparr>status = Allocated, frame_id = Some process_id\<rparr>"

text \<open>The entries appended to \<^verbatim>\<open>self.operations\<close>.\<close>

datatype access_result = Hit | Fault

datatype op_record =
    OpAllocate nat int "nat list"
  | OpDeallocate nat int "nat list"
  | OpAccess int access_result

text \<open>
  Every exception the engine can raise. The code raises \<^verbatim>\<open>ValueError\<close> with four
  different messages; they are kept apart under the names the specification gives them.
  \<open>IndexError\<close> and \<open>ZeroDivisionError\<close> are the interpreter's own.
\<close>

datatype error =
    CapacityError
  | InvalidAddressError
  | NothingAllocatedError
  | NoProcessIdError
  | IndexError
  | ZeroDivisionError

text \<open>
  The attributes of \<^verbatim>\<open>MemoryManager\<close>. Dictionaries are association lists in insertion
  order, read with \<^const>\<open>map_of\<close> and written with \<open>AList.update\<close> and \<open>AList.delete\<close>:
  the order matters for \<^verbatim>\<open>min\<close> over \<^verbatim>\<open>page_access_time.items()\<close>. A key of
  \<^verbatim>\<open>page_access_time\<close> is the pair of a frame's id (which may be \<^verbatim>\<open>None\<close>) and an index.
\<close>

record engine =
  technique :: string
  memory_size :: int
  page_size :: int
  algorithm :: string
  total_frames :: int
  memory :: "frame list"
  page_table :: "(nat \<times> nat list) list"
  page_queue :: "(nat \<times> nat) list"
  page_access_time :: "((nat option \<times> nat) \<times> nat) list"
  page_faults :: nat
  memory_accesses :: nat
  page_hits :: nat
  operations :: "op_record list"
  next_id :: nat

subsection \<open>Construction\<close>

text \<open>
  \<^verbatim>\<open>__init__\<close>: \<^verbatim>\<open>memory_size // page_size\<close> raises on a zero page size; a negative
  quotient gives an empty frame list, as \<^verbatim>\<open>range\<close> of a negative number is empty.
\<close>

definition new_engine :: "string \<Rightarrow> int \<Rightarrow> int \<Rightarrow> string \<Rightarrow> error + engine" where
  "new_engine tech msize psize alg =
     (if psize = 0 then Inl ZeroDivisionError
      else Inr \<lparr>technique = tech, memory_size = msize, page_size = psize, algorithm = alg,
                total_frames = msize div psize,
                memory = replicate (nat (msize div psize)) free_frame,
                page_table = [], page_queue = [], page_access_time = [],
                page_faults = 0, memory_accesses = 0, page_hits = 0,
                operations = [], next_id = 1\<rparr>)"

subsection \<open>Scans over the frame list\<close>

text \<open>\<^verbatim>\<open>[i for i, frame in enumerate(self.memory) if frame['status'] == 'free']\<close>\<close>

definition free_frames :: "engine \<Rightarrow> nat list" where
  "free_frames s = map fst (filter (\<lambda>(i, f). status f = Free) (enumerate 0 (memory s)))"

text \<open>\<^verbatim>\<open>[(i, f) for i, f in enumerate(self.memory) if f['status'] == 'allocated']\<close>\<close>

definition allocated_frames :: "engine \<Rightarrow> (nat \<times> frame) list" where
  "allocated_frames s = filter (\<lambda>(i, f). status f = Allocated) (enumerate 0 (memory s))"

text \<open>Python's \<^verbatim>\<open>xs[:n]\<close>, where a negative \<open>n\<close> counts from the end.\<close>

definition py_take :: "int \<Rightarrow> 'a list \<Rightarrow> 'a list" where
  "py_take n xs = (if 0 \<le> n then take (nat n) xs else take (length xs - nat (- n)) xs)"

subsection \<open>Page replacement\<close>

text \<open>
  \<^verbatim>\<open>min(items, key=lambda x: x[1])\<close>: the first item, in iteration order, whose value is
  minimal.
\<close>

fun min_by_time :: "('k \<times> nat) \<Rightarrow> ('k \<times> nat) list \<Rightarrow> ('k \<times> nat)" where
  "min_by_time best [] = best"
| "min_by_time best (x # xs) = min_by_time (if snd x < snd best then x else best) xs"

text \<open>
  The fallback of \<^verbatim>\<open>_replace_pages\<close>: the first allocated frame with its id, or
  \<open>None\<close> where the code breaks out of the loop.
\<close>

definition first_allocated :: "engine \<Rightarrow> (engine \<times> nat option \<times> nat) option" where
  "first_allocated s =
     (case allocated_frames s of
        [] \<Rightarrow> None
      | (i, f) # _ \<Rightarrow> Some (s, frame_id f, i))"

text \<open>
  The selection part of one loop iteration: the state after the queue or the timestamp
  dictionary has been popped, the victim's \<open>process_id\<close> and its \<open>frame_idx\<close>.
\<close>

definition select_victim :: "engine \<Rightarrow> (engine \<times> nat option \<times> nat) option" where
  "select_victim s =
     (if algorithm s = ''FIFO'' then
        (case page_queue s of
           [] \<Rightarrow> first_allocated s
         | (process_id, frame_idx) # rest \<Rightarrow>
             Some (s\<lparr>page_queue := rest\<rparr>, Some process_id, frame_idx))
      else if algorithm s = ''LRU'' then
        (case page_access_time s of
           [] \<Rightarrow> first_allocated s
         | item # items \<Rightarrow>
             (let lru_key = fst (min_by_time item items)
              in Some (s\<lparr>page_access_time := AList.delete lru_key (page_access_time s)\<rparr>,
                       fst lru_key, snd lru_key)))
      else first_allocated s)"

text \<open>The second half of the iteration: free the frame, update the page table, count a fault.\<close>

definition evict_frame :: "engine \<Rightarrow> nat \<Rightarrow> nat \<Rightarrow> engine" where
  "evict_frame s process_id frame_idx =
     s\<lparr>memory := (memory s)[frame_idx := free_frame],
       page_table :=
         (case map_of (page_table s) process_id of
            None \<Rightarrow> page_table s
          | Some fs \<Rightarrow>
              (let fs' = filter (\<lambda>f. f \<noteq> frame_idx) fs;
                   pt = AList.update process_id fs' (page_table s)
               in if fs' = [] then AList.delete process_id pt else pt)),
       page_faults := page_faults s + 1\<rparr>"

text \<open>
  \<^verbatim>\<open>for _ in range(num_pages)\<close>: \<open>None\<close> from the selection is the \<^verbatim>\<open>break\<close>, a missing id
  or an index out of range is the \<^verbatim>\<open>continue\<close>. No statement inside the two \<^verbatim>\<open>try\<close> blocks
  can raise on these data, so their handlers have no branch here.
\<close>

fun replace_loop :: "nat \<Rightarrow> engine \<Rightarrow> engine" where
  "replace_loop 0 s = s"
| "replace_loop (Suc n) s =
     (case select_victim s of
        None \<Rightarrow> s
      | Some (s1, pid, frame_idx) \<Rightarrow>
          (case pid of
             None \<Rightarrow> replace_loop n s1
           | Some process_id \<Rightarrow>
               if length (memory s1) \<le> frame_idx then replace_loop n s1
               else replace_loop n (evict_frame s1 process_id frame_idx)))"

definition replace_pages :: "int \<Rightarrow> engine \<Rightarrow> engine" where
  "replace_pages num_pages s = (if num_pages \<le> 0 then s else replace_loop (nat num_pages) s)"

subsection \<open>allocate\<close>

definition num_pages_needed :: "engine \<Rightarrow> int \<Rightarrow> int" where
  "num_pages_needed s sz = (sz + page_size s - 1) div page_size s"

text \<open>The body of \<^verbatim>\<open>for frame_idx in allocated_frames\<close>.\<close>

definition allocate_frame :: "nat \<Rightarrow> nat list \<Rightarrow> engine \<Rightarrow> nat \<Rightarrow> engine" where
  "allocate_frame process_id frames s frame_idx =
     (let s1 = s\<lparr>memory := (memory s)[frame_idx := allocated_frame process_id],
                 page_table := AList.update process_id frames (page_table s)\<rparr>
      in if algorithm s = ''FIFO'' then
           s1\<lparr>page_queue := page_queue s1 @ [(process_id, frame_idx)]\<rparr>
         else if algorithm s = ''LRU'' then
           s1\<lparr>page_access_time :=
                 AList.update (Some process_id, frame_idx) (memory_accesses s1)
                   (page_access_time s1)\<rparr>
         else s1)"

text \<open>
  An operation returns what the caller sees (the value, or the exception raised) together
  with the engine as the call leaves it: a raise does not undo earlier assignments.
\<close>

definition allocate_memory :: "engine \<Rightarrow> int \<Rightarrow> (error + int) \<times> engine" where
  "allocate_memory s sz =
     (if page_size s = 0 then (Inl ZeroDivisionError, s)
      else if total_frames s < num_pages_needed s sz then (Inl CapacityError, s)
      else
        (let n = num_pages_needed s sz;
             short = int (length (free_frames s)) < n;
             s1 = (if short then replace_pages (n - int (length (free_frames s))) s else s);
             free = (if short then free_frames s1 else free_frames s);
             process_id = next_id s1;
             s2 = s1\<lparr>next_id := next_id s1 + 1\<rparr>;
             frames = py_take n free;
             s3 = foldl (allocate_frame process_id frames) s2 frames;
             s4 = s3\<lparr>operations := operations s3 @ [OpAllocate process_id sz frames]\<rparr>
         in case frames of
              [] \<Rightarrow> (Inl IndexError, s4)
            | f # _ \<Rightarrow> (Inr (int f * page_size s), s4)))"

subsection \<open>deallocate\<close>

text \<open>The body of \<^verbatim>\<open>for frame_idx in process_frames\<close>, with its range check.\<close>

definition deallocate_frame :: "nat \<Rightarrow> engine \<Rightarrow> nat \<Rightarrow> engine" where
  "deallocate_frame process_id s frame_idx =
     (if frame_idx < length (memory s) then
        (let s1 = s\<lparr>memory := (memory s)[frame_idx := free_frame]\<rparr>
         in if algorithm s = ''FIFO'' then
              s1\<lparr>page_queue := filter (\<lambda>p. fst p \<noteq> process_id) (page_queue s1)\<rparr>
            else if algorithm s = ''LRU'' then
              (let keys_to_remove =
                     filter (\<lambda>k. fst k = Some process_id) (map fst (page_access_time s1))
               in s1\<lparr>page_access_time :=
                       foldl (\<lambda>d key. AList.delete key d) (page_access_time s1) keys_to_remove\<rparr>)
            else s1)
      else s)"

text \<open>
  The frame a deallocation works on: the addressed frame when it is allocated, otherwise the
  first entry of the scan for allocated frames; \<open>None\<close> when that scan is empty.
\<close>

definition deallocate_target :: "engine \<Rightarrow> nat \<Rightarrow> (nat \<times> frame) option" where
  "deallocate_target s frame_num =
     (if status (memory s ! frame_num) \<noteq> Allocated then
        (case allocated_frames s of
           [] \<Rightarrow> None
         | found # _ \<Rightarrow> Some found)
      else Some (frame_num, memory s ! frame_num))"

definition deallocate_memory :: "engine \<Rightarrow> int \<Rightarrow> (error + unit) \<times> engine" where
  "deallocate_memory s address =
     (if page_size s = 0 then (Inl ZeroDivisionError, s)
      else
        (let frame_num = address div page_size s
         in if int (length (memory s)) \<le> frame_num \<or> frame_num < 0 then
              (Inl InvalidAddressError, s)
            else
              (case deallocate_target s (nat frame_num) of
                 None \<Rightarrow> (Inl NothingAllocatedError, s)
               | Some (frame_num, frame) \<Rightarrow>
                   (case frame_id frame of
                      None \<Rightarrow> (Inl NoProcessIdError, s)
                    | Some process_id \<Rightarrow>
                        (let found = (case map_of (page_table s) process_id of
                                        None \<Rightarrow> []
                                      | Some fs \<Rightarrow> fs);
                             process_frames = (if found = [] then [frame_num] else found);
                             s1 = foldl (deallocate_frame process_id) s process_frames;
                             s2 = s1\<lparr>page_table := AList.delete process_id (page_table s1)\<rparr>;
                             s3 = s2\<lparr>operations := operations s2 @
                                       [OpDeallocate process_id
                                          (int frame_num * page_size s) process_frames]\<rparr>
                         in (Inr (), s3))))))"

subsection \<open>access\<close>

text \<open>
  \<^verbatim>\<open>_handle_page_fault\<close>. The status type has two values, so the branch the code marks
  "this shouldn't happen" does not exist here.
\<close>

definition handle_page_fault :: "engine \<Rightarrow> nat \<Rightarrow> engine" where
  "handle_page_fault s frame_num =
     (if status (memory s ! frame_num) = Allocated then s
      else
        (let process_id = next_id s;
             s1 = s\<lparr>next_id := next_id s + 1\<rparr>;
             s2 = s1\<lparr>memory := (memory s1)[frame_num := allocated_frame process_id]\<rparr>;
             s3 = s2\<lparr>page_table :=
                       (case map_of (page_table s2) process_id of
                          Some fs \<Rightarrow> AList.update process_id (fs @ [frame_num]) (page_table s2)
                        | None \<Rightarrow> AList.update process_id [frame_num] (page_table s2))\<rparr>
         in if algorithm s = ''FIFO'' then
              s3\<lparr>page_queue := page_queue s3 @ [(process_id, frame_num)]\<rparr>
            else if algorithm s = ''LRU'' then
              s3\<lparr>page_access_time :=
                    AList.update (Some process_id, frame_num) (memory_accesses s3)
                      (page_access_time s3)\<rparr>
            else s3))"

text \<open>
  The frame number \<^verbatim>\<open>access_memory\<close> computes, with its clamp:
  \<^verbatim>\<open>frame_num = min(max(0, frame_num), len(self.memory) - 1)\<close> when out of range.
\<close>

definition access_frame_num :: "engine \<Rightarrow> int \<Rightarrow> int" where
  "access_frame_num s address =
     (let len = int (length (memory s));
          frame_num = address div page_size s
      in if len \<le> frame_num \<or> frame_num < 0 then min (max 0 frame_num) (len - 1)
         else frame_num)"

text \<open>
  \<^verbatim>\<open>access_memory\<close>. After the clamp the index is negative only when the frame list is
  empty (it is then \<open>-1\<close>), and \<^verbatim>\<open>self.memory[-1]\<close> on an empty list raises
  \<^verbatim>\<open>IndexError\<close>, after \<^verbatim>\<open>memory_accesses\<close> has been incremented.
\<close>

definition access_memory :: "engine \<Rightarrow> int \<Rightarrow> (error + bool) \<times> engine" where
  "access_memory s address =
     (if page_size s = 0 then (Inl ZeroDivisionError, s)
      else
        (let frame_num = access_frame_num s address;
             s1 = s\<lparr>memory_accesses := memory_accesses s + 1\<rparr>
         in if frame_num < 0 \<or> int (length (memory s1)) \<le> frame_num then (Inl IndexError, s1)
            else
              (let frame = memory s1 ! nat frame_num
               in if status frame \<noteq> Allocated then
                    (let s2 = s1\<lparr>page_faults := page_faults s1 + 1\<rparr>;
                         s3 = handle_page_fault s2 (nat frame_num);
                         s4 = s3\<lparr>operations := operations s3 @ [OpAccess address Fault]\<rparr>
                     in (Inr False, s4))
                  else
                    (let s2 = s1\<lparr>page_hits := page_hits s1 + 1\<rparr>;
                         s3 = (if algorithm s2 = ''LRU'' then
                                 s2\<lparr>page_access_time :=
                                       AList.update (frame_id frame, nat frame_num)
                                         (memory_accesses s2) (page_access_time s2)\<rparr>
                               else s2);
                         s4 = s3\<lparr>operations := operations s3 @ [OpAccess address Hit]\<rparr>
                     in (Inr True, s4)))))"

subsection \<open>Sequences of operations\<close>

text \<open>
  What a caller can do with an engine. A call that raises leaves the engine as it is at the
  raise, and the caller goes on with that engine.
\<close>

datatype operation = Allocate int | Deallocate int | Access int

fun apply_operation :: "engine \<Rightarrow> operation \<Rightarrow> engine" where
  "apply_operation s (Allocate sz) = snd (allocate_memory s sz)"
| "apply_operation s (Deallocate address) = snd (deallocate_memory s address)"
| "apply_operation s (Access address) = snd (access_memory s address)"

definition run_operations :: "engine \<Rightarrow> operation list \<Rightarrow> engine" where
  "run_operations s ops = foldl apply_operation s ops"

subsection \<open>Consistency of an engine\<close>

text \<open>
  The engines a caller can hold: what the constructor returns, and what any operation makes
  of such an engine.
\<close>

inductive reachable :: "engine \<Rightarrow> bool" where
  fresh: "new_engine tech msize psize alg = Inr e \<Longrightarrow> reachable e"
| step: "reachable s \<Longrightarrow> reachable (apply_operation s op)"

text \<open>
  The two sides of the frame/page-table invariant: the indices the scan for allocated
  frames finds, and the union of the frame sequences of all owners in the page table.
\<close>

definition allocated_indices :: "engine \<Rightarrow> nat set" where
  "allocated_indices s = fst ` set (allocated_frames s)"

definition page_table_frames :: "engine \<Rightarrow> nat set" where
  "page_table_frames s = (\<Union>(p, fs) \<in> set (page_table s). set fs)"

text \<open>
  The consistency every reachable engine has: the page table is a dictionary (no key
  twice) of owners below \<open>next_id\<close>; an allocated frame carries an owner whose entry lists
  it; a listed frame is allocated to the owner listing it; the FIFO queue has no pair twice
  and, like the timestamp dictionary, only pairs of a frame and the owner it is allocated
  to; the metadata of the algorithm not in use is empty.
\<close>

definition engine_inv :: "engine \<Rightarrow> bool" where
  "engine_inv s \<longleftrightarrow>
     page_size s \<noteq> 0
   \<and> distinct (map fst (page_table s))
   \<and> (\<forall>i < length (memory s). status (memory s ! i) = Allocated \<longrightarrow>
        (\<exists>p fs. frame_id (memory s ! i) = Some p \<and> (p, fs) \<in> set (page_table s) \<and> i \<in> set fs))
   \<and> (\<forall>(p, fs) \<in> set (page_table s).
        p < next_id s \<and> (\<forall>f \<in> set fs. f < length (memory s) \<and> memory s ! f = allocated_frame p))
   \<and> distinct (page_queue s)
   \<and> (\<forall>(p, f) \<in> set (page_queue s). f < length (memory s) \<and> memory s ! f = allocated_frame p)
   \<and> (\<forall>(k, t) \<in> set (page_access_time s).
        \<exists>p. fst k = Some p \<and> snd k < length (memory s) \<and> memory s ! snd k = allocated_frame p)
   \<and> (algorithm s \<noteq> ''FIFO'' \<longrightarrow> page_queue s = [])
   \<and> (algorithm s \<noteq> ''LRU'' \<longrightarrow> page_access_time s = [])"

subsection \<open>Example engines\<close>

text \<open>
  The engine \<^verbatim>\<open>MemoryManager('paging', 256, 64, alg)\<close>: four frames of 64 bytes.
\<close>

definition engine4 :: "string \<Rightarrow> engine" where
  "engine4 alg =
     \<lparr>technique = ''paging'', memory_size = 256, page_size = 64, algorithm = alg,
      total_frames = 4,
      memory = [free_frame, free_frame, free_frame, free_frame],
      page_table = [], page_queue = [], page_access_time = [],
      page_faults = 0, memory_accesses = 0, page_hits = 0,
      operations = [], next_id = 1\<rparr>"

text \<open>
  A fresh engine with four frames, for any technique, sizes and algorithm: what
  \<^const>\<open>new_engine\<close> returns when \<open>memory_size // page_size\<close> is 4.
\<close>

definition four_frames :: "string \<Rightarrow> int \<Rightarrow> int \<Rightarrow> string \<Rightarrow> engine" where
  "four_frames tech msize psize alg =
     \<lparr>technique = tech, memory_size = msize, page_size = psize, algorithm = alg,
      total_frames = 4,
      memory = [free_frame, free_frame, free_frame, free_frame],
      page_table = [], page_queue = [], page_access_time = [],
      page_faults = 0, memory_accesses = 0, page_hits = 0,
      operations = [], next_id = 1\<rparr>"

text \<open>
  An LRU engine in which owner 1 holds the frames 0, 1 and 2, and a FIFO engine whose frame 0
  has been freed again while owner 2 holds the frames 1 and 2.
\<close>

definition three_frame_owner :: engine where
  "three_frame_owner = run_operations (engine4 ''LRU'') [Allocate 192]"

definition fallback_example :: engine where
  "fallback_example = run_operations (engine4 ''FIFO'') [Allocate 64, Allocate 128, Deallocate 0]"

section \<open>The tutorial driver (src/tutorial_manager.py)\<close>

text \<open>
  \<^verbatim>\<open>operation_data\<close> is a dictionary decoded from the request body and passed on as it
  came, so its values are arbitrary JSON values: \<^verbatim>\<open>null\<close>, booleans, integers, numbers with
  a fraction or exponent (floats, here by their exact value; the decoder also produces
  \<^verbatim>\<open>NaN\<close> and the infinities), strings, arrays and objects.
\<close>

datatype json_value =
    JNull
  | JBool bool
  | JInt int
  | JFloat rat
  | JNaN
  | JInfinity
  | JString string
  | JArray "json_value list"
  | JObject "(string \<times> json_value) list"

text \<open>
  What the function can raise: the two subscripts (\<^verbatim>\<open>KeyError\<close>, \<^verbatim>\<open>IndexError\<close>) and the
  conversion \<^verbatim>\<open>int(...)\<close>.
\<close>

datatype tutorial_error = KeyError | StepIndexError | TypeError | ValueError | OverflowError

text \<open>
  Python's \<^verbatim>\<open>int(x)\<close>: the identity on integers, 0 and 1 on booleans, truncation towards
  zero on a finite float, \<^verbatim>\<open>ValueError\<close> on \<^verbatim>\<open>NaN\<close>, \<^verbatim>\<open>OverflowError\<close> on an infinity,
  \<^verbatim>\<open>TypeError\<close> on \<^verbatim>\<open>None\<close>, lists and dictionaries. On a string it parses an integer
  literal or raises \<^verbatim>\<open>ValueError\<close>; that parser is the interpreter's and not code of this
  repository, so it is the parameter \<open>parse\<close>, with \<open>None\<close> where it raises.
\<close>

definition py_int :: "(string \<Rightarrow> int option) \<Rightarrow> json_value \<Rightarrow> tutorial_error + int" where
  "py_int parse v =
     (case v of
        JNull \<Rightarrow> Inl TypeError
      | JBool b \<Rightarrow> Inr (if b then 1 else 0)
      | JInt n \<Rightarrow> Inr n
      | JFloat r \<Rightarrow> Inr (if 0 \<le> r then \<lfloor>r\<rfloor> else \<lceil>r\<rceil>)
      | JNaN \<Rightarrow> Inl ValueError
      | JInfinity \<Rightarrow> Inl OverflowError
      | JString s \<Rightarrow> (case parse s of None \<Rightarrow> Inl ValueError | Some n \<Rightarrow> Inr n)
      | JArray _ \<Rightarrow> Inl TypeError
      | JObject _ \<Rightarrow> Inl TypeError)"

text \<open>
  \<^verbatim>\<open>d.get(key, default)\<close> on the entry of a key: the default when the key is absent, the
  value otherwise (also when the value is \<^verbatim>\<open>null\<close>).
\<close>

definition dict_get :: "json_value option \<Rightarrow> json_value \<Rightarrow> json_value" where
  "dict_get entry dflt = (case entry of None \<Rightarrow> dflt | Some v \<Rightarrow> v)"

text \<open>
  The entries of \<^verbatim>\<open>operation_data\<close> the function reads, each of which may be absent.
\<close>

record op_data =
  op_type :: "json_value option"
  op_size :: "json_value option"
  op_address :: "json_value option"

text \<open>
  An \<^verbatim>\<open>'expected_operation'\<close> is a literal of the tutorial table: its type is a string, its
  size and address are integers, on which \<^verbatim>\<open>int(...)\<close> is the identity.
\<close>

record expected_op =
  expected_type :: "string option"
  expected_size :: "int option"
  expected_address :: "int option"

text \<open>A step, as far as verification reads it: the optional \<^verbatim>\<open>'expected_operation'\<close>.\<close>

record step =
  expected_operation :: "expected_op option"

record tutorial_manager =
  current_tutorial :: "string option"
  current_step :: nat
  tutorials :: "(string \<times> step list) list"

text \<open>\<^verbatim>\<open>expected.get('type')\<close> as a value: \<^verbatim>\<open>None\<close> when the key is absent.\<close>

definition expected_type_value :: "expected_op \<Rightarrow> json_value" where
  "expected_type_value expected =
     (case expected_type expected of None \<Rightarrow> JNull | Some t \<Rightarrow> JString t)"

text \<open>
  \<^verbatim>\<open>verify_step_completed\<close>. \<^verbatim>\<open>not self.current_tutorial\<close> holds for \<^verbatim>\<open>None\<close> and for the
  empty string; the two subscripts raise on a missing tutorial or step. In the comparison of
  sizes the left operand \<^verbatim>\<open>int(operation_data.get('size', 0))\<close> is evaluated first, and a
  raise there leaves the function.
\<close>

definition verify_step_completed ::
  "(string \<Rightarrow> int option) \<Rightarrow> tutorial_manager \<Rightarrow> op_data \<Rightarrow> tutorial_error + bool" where
  "verify_step_completed parse tm operation_data =
     (case current_tutorial tm of
        None \<Rightarrow> Inr False
      | Some tutorial_id \<Rightarrow>
          if tutorial_id = [] then Inr False
          else
            (case map_of (tutorials tm) tutorial_id of
               None \<Rightarrow> Inl KeyError
             | Some steps \<Rightarrow>
                 if length steps \<le> current_step tm then Inl StepIndexError
                 else
                   (case expected_operation (steps ! current_step tm) of
                      None \<Rightarrow> Inr True
                    | Some expected \<Rightarrow>
                        if expected_type expected = Some ''reset'' then
                          Inr (dict_get (op_type operation_data) JNull = JString ''reset'')
                        else if expected_type_value expected
                                  \<noteq> dict_get (op_type operation_data) JNull then
                          Inr False
                        else if expected_type expected = Some ''allocate''
                                \<and> expected_size expected \<noteq> None then
                          (case py_int parse (dict_get (op_size operation_data) (JInt 0)) of
                             Inl e \<Rightarrow> Inl e
                           | Inr n \<Rightarrow> Inr (Some n = expected_size expected))
                        else if expected_type expected = Some ''access''
                                \<and> expected_address expected \<noteq> None then
                          (case py_int parse
                                  (dict_get (op_address operation_data) (JInt (- 1))) of
                             Inl e \<Rightarrow> Inl e
                           | Inr a \<Rightarrow> Inr (Some a = expected_address expected))
                        else if expected_type expected = Some ''deallocate'' then Inr True
                        else Inr False)))"

text \<open>
  The rule as the specification words it: the operation types are equal and, for an
  expected allocate, the sizes are equal; for an expected access, the addresses are equal.
  A deallocate is then satisfied by any deallocate and a reset only by a reset; a step
  without expected operation is satisfied by everything. Sizes and addresses are compared
  as dictionary entries: both absent, or both present with the same integer.
\<close>

definition spec_step_satisfied :: "step \<Rightarrow> op_data \<Rightarrow> bool" where
  "spec_step_satisfied st performed =
     (case expected_operation st of
        None \<Rightarrow> True
      | Some expected \<Rightarrow>
          expected_type_value expected = dict_get (op_type performed) JNull
          \<and> (expected_type expected = Some ''allocate''
               \<longrightarrow> op_size performed = map_option JInt (expected_size expected))
          \<and> (expected_type expected = Some ''access''
               \<longrightarrow> op_address performed = map_option JInt (expected_address expected)))"

text \<open>
  The steps of the tutorial \<^verbatim>\<open>'optimization'\<close> in the order of the table, by their expected
  operations. Step 5, "Optimization Challenge", expects \<^verbatim>\<open>{'type': 'allocate'}\<close> without a
  size; step 4, "Compaction", expects \<^verbatim>\<open>{'type': 'deallocate'}\<close>.
\<close>

definition optimization_tutorial :: "step list" where
  "optimization_tutorial =
     [\<lparr>expected_operation = None\<rparr>,
      \<lparr>expected_operation = Some \<lparr>expected_type = Some ''allocate'',
         expected_size = Some 60, expected_address = None\<rparr>\<rparr>,
      \<lparr>expected_operation = Some \<lparr>expected_type = Some ''allocate'',
         expected_size = Some 64, expected_address = None\<rparr>\<rparr>,
      \<lparr>expected_operation = Some \<lparr>expected_type = Some ''access'',
         expected_size = None, expected_address = Some 0\<rparr>\<rparr>,
      \<lparr>expected_operation = Some \<lparr>expected_type = Some ''deallocate'',
         expected_size = None, expected_address = None\<rparr>\<rparr>,
      \<lparr>expected_operation = Some \<lparr>expected_type = Some ''allocate'',
         expected_size = None, expected_address = None\<rparr>\<rparr>,
      \<lparr>expected_operation = None\<rparr>]"

text \<open>
  The manager after \<^verbatim>\<open>start_tutorial('optimization')\<close> and \<open>i\<close> successful calls of
  \<^verbatim>\<open>next_step\<close>, as far as verification reads it.
\<close>

definition optimization_at :: "nat \<Rightarrow> tutorial_manager" where
  "optimization_at i =
     \<lparr>current_tutorial = Some ''optimization'', current_step = i,
      tutorials = [(''optimization'', optimization_tutorial)]\<rparr>"

section \<open>Properties of the engine\<close>

subsection \<open>Capacity rejection\<close>

text \<open>
  For a positive page size the code's \<^verbatim>\<open>(size + page_size - 1) // page_size\<close> is the
  ceiling of the quotient.
\<close>

lemma ceil_div_pages:
  fixes sz p :: int
  assumes "0 < p"
  shows "(sz + p - 1) div p = \<lceil>real_of_int sz / real_of_int p\<rceil>"
proof -
  define q where "q = (sz + p - 1) div p"
  define r where "r = (sz + p - 1) mod p"
  have eq: "sz + p - 1 = q * p + r"
    by (simp add: q_def r_def)
  have r: "0 \<le> r" "r < p"
    using assms by (simp_all add: r_def)
  have lo: "(q - 1) * p < sz"
    using eq r by (simp add: algebra_simps)
  have hi: "sz \<le> q * p"
    using eq r by (simp add: algebra_simps)
  have "real_of_int ((q - 1) * p) < real_of_int sz"
    using lo by (simp only: of_int_less_iff)
  then have lo': "real_of_int q - 1 < real_of_int sz / real_of_int p"
    using assms by (simp add: field_simps)
  have "real_of_int sz \<le> real_of_int (q * p)"
    using hi by (simp only: of_int_le_iff)
  then have hi': "real_of_int sz / real_of_int p \<le> real_of_int q"
    using assms by (simp add: field_simps)
  have "\<lceil>real_of_int sz / real_of_int p\<rceil> = q"
    using lo' hi' by (intro ceiling_unique) simp_all
  then show ?thesis by (simp add: q_def)
qed

text \<open>
  C6. In every engine state with a positive page size, a request whose page count
  \<open>\<lceil>size / page_size\<rceil>\<close> exceeds \<open>total_frames\<close> raises the capacity error, and the engine
  the call leaves behind is the engine it was given: frames, page table, replacement
  metadata, counters, next id and operation log are all unchanged.
\<close>

theorem allocate_capacity_rejection:
  assumes "0 < page_size s"
    and "total_frames s < \<lceil>real_of_int sz / real_of_int (page_size s)\<rceil>"
  shows "allocate_memory s sz = (Inl CapacityError, s)"
  using assms by (simp add: allocate_memory_def num_pages_needed_def ceil_div_pages)

theorem allocate_capacity_rejection_witness:
  "0 < page_size (engine4 ''FIFO'')
   \<and> total_frames (engine4 ''FIFO'')
       < \<lceil>real_of_int 257 / real_of_int (page_size (engine4 ''FIFO''))\<rceil>
   \<and> allocate_memory (engine4 ''FIFO'') 257 = (Inl CapacityError, engine4 ''FIFO'')"
proof -
  have h1: "0 < page_size (engine4 ''FIFO'')"
    by (simp add: engine4_def)
  have "\<lceil>real_of_int 257 / real_of_int 64\<rceil> = ((257 + 64 - 1) div 64 :: int)"
    by (rule ceil_div_pages [symmetric]) simp
  then have h2: "total_frames (engine4 ''FIFO'')
      < \<lceil>real_of_int 257 / real_of_int (page_size (engine4 ''FIFO''))\<rceil>"
    by (simp add: engine4_def)
  from allocate_capacity_rejection [OF h1 h2] h1 h2 show ?thesis by simp
qed

subsection \<open>Failing deallocations\<close>

lemma deallocate_error_state:
  assumes "fst (deallocate_memory s address) = Inl e"
  shows "snd (deallocate_memory s address) = s"
proof (cases "page_size s = 0
    \<or> int (length (memory s)) \<le> address div page_size s \<or> address div page_size s < 0")
  case True
  then show ?thesis by (auto simp: deallocate_memory_def Let_def)
next
  case False
  show ?thesis
  proof (cases "deallocate_target s (nat (address div page_size s))")
    case None
    then show ?thesis
      using False unfolding deallocate_memory_def Let_def by simp
  next
    case (Some found)
    obtain i fr where found: "found = (i, fr)" by (cases found)
    show ?thesis
    proof (cases "frame_id fr")
      case None
      then show ?thesis
        using False Some found unfolding deallocate_memory_def Let_def by simp
    next
      case (Some p)
      then have "\<exists>x. fst (deallocate_memory s address) = Inr x"
        using False \<open>deallocate_target s (nat (address div page_size s)) = Some found\<close> found
        unfolding deallocate_memory_def Let_def by simp
      then show ?thesis using assms by simp
    qed
  qed
qed

text \<open>
  C10. Whenever \<open>deallocate\<close> raises, the engine is exactly what it was before the call.
  The two failures the interface names are really raised: an address whose frame index is
  out of range gives the invalid-address error, and an in-range address in an engine
  without any allocated frame gives the nothing-allocated error.
\<close>

theorem deallocate_atomic_on_failure:
  "(\<forall>e. fst (deallocate_memory s address) = Inl e \<longrightarrow> snd (deallocate_memory s address) = s)
   \<and> (page_size s \<noteq> 0
        \<and> (address div page_size s < 0 \<or> int (length (memory s)) \<le> address div page_size s)
      \<longrightarrow> deallocate_memory s address = (Inl InvalidAddressError, s))
   \<and> (page_size s \<noteq> 0
        \<and> 0 \<le> address div page_size s \<and> address div page_size s < int (length (memory s))
        \<and> allocated_frames s = []
      \<longrightarrow> deallocate_memory s address = (Inl NothingAllocatedError, s))"
proof (intro conjI allI impI)
  fix e
  assume "fst (deallocate_memory s address) = Inl e"
  then show "snd (deallocate_memory s address) = s"
    by (rule deallocate_error_state)
next
  assume "page_size s \<noteq> 0
    \<and> (address div page_size s < 0 \<or> int (length (memory s)) \<le> address div page_size s)"
  then show "deallocate_memory s address = (Inl InvalidAddressError, s)"
    by (auto simp: deallocate_memory_def Let_def)
next
  assume a: "page_size s \<noteq> 0
    \<and> 0 \<le> address div page_size s \<and> address div page_size s < int (length (memory s))
    \<and> allocated_frames s = []"
  let ?i = "nat (address div page_size s)"
  have "?i < length (memory s)"
    using a by (simp add: nat_less_iff)
  then have "(?i, memory s ! ?i) \<in> set (enumerate 0 (memory s))"
    by (simp add: in_set_enumerate_eq)
  moreover have "filter (\<lambda>(i, f). status f = Allocated) (enumerate 0 (memory s)) = []"
    using a by (simp add: allocated_frames_def)
  ultimately have "status (memory s ! ?i) \<noteq> Allocated"
    by (auto simp: filter_empty_conv)
  then show "deallocate_memory s address = (Inl NothingAllocatedError, s)"
    using a by (simp add: deallocate_memory_def deallocate_target_def Let_def)
qed

theorem deallocate_atomic_on_failure_witness:
  "deallocate_memory (engine4 ''FIFO'') 256 = (Inl InvalidAddressError, engine4 ''FIFO'')
   \<and> deallocate_memory (engine4 ''FIFO'') (- 1) = (Inl InvalidAddressError, engine4 ''FIFO'')
   \<and> deallocate_memory (engine4 ''FIFO'') 64 = (Inl NothingAllocatedError, engine4 ''FIFO'')
   \<and> fst (deallocate_memory (engine4 ''FIFO'') 64) = Inl NothingAllocatedError
   \<and> snd (deallocate_memory (engine4 ''FIFO'') 64) = engine4 ''FIFO''"
proof -
  have p: "page_size (engine4 ''FIFO'') = 64" "length (memory (engine4 ''FIFO'')) = 4"
    by (simp_all add: engine4_def)
  have n: "allocated_frames (engine4 ''FIFO'') = []"
    by (simp add: allocated_frames_def engine4_def free_frame_def enumerate_eq_zip upt_rec)
  note t = deallocate_atomic_on_failure [of "engine4 ''FIFO''"]
  have a: "deallocate_memory (engine4 ''FIFO'') 256 = (Inl InvalidAddressError, engine4 ''FIFO'')"
    using t [of 256] p by simp
  have b: "deallocate_memory (engine4 ''FIFO'') (- 1) = (Inl InvalidAddressError, engine4 ''FIFO'')"
    using t [of "- 1"] p by simp
  have c: "deallocate_memory (engine4 ''FIFO'') 64 = (Inl NothingAllocatedError, engine4 ''FIFO'')"
    using t [of 64] p n by simp
  have d: "snd (deallocate_memory (engine4 ''FIFO'') 64) = engine4 ''FIFO''"
    using t [of 64] c by simp
  from a b c d show ?thesis by simp
qed

subsection \<open>Access\<close>

lemma handle_page_fault_fields [simp]:
  "length (memory (handle_page_fault s i)) = length (memory s)"
  "page_faults (handle_page_fault s i) = page_faults s"
  "page_hits (handle_page_fault s i) = page_hits s"
  "memory_accesses (handle_page_fault s i) = memory_accesses s"
  "page_size (handle_page_fault s i) = page_size s"
  "algorithm (handle_page_fault s i) = algorithm s"
  by (simp_all add: handle_page_fault_def Let_def)

lemma access_frame_num_range:
  assumes "memory s \<noteq> []"
  shows "0 \<le> access_frame_num s address"
    and "access_frame_num s address < int (length (memory s))"
proof -
  have "0 < int (length (memory s))" using assms by simp
  then show "0 \<le> access_frame_num s address"
    and "access_frame_num s address < int (length (memory s))"
    by (auto simp: access_frame_num_def Let_def min_def max_def)
qed

lemma access_memory_fields:
  fixes s :: engine and address :: int
  assumes "page_size s \<noteq> 0" and "memory s \<noteq> []"
  defines "hit \<equiv> status (memory s ! nat (access_frame_num s address)) = Allocated"
  shows "fst (access_memory s address) = Inr hit"
    and "memory_accesses (snd (access_memory s address)) = memory_accesses s + 1"
    and "page_hits (snd (access_memory s address)) = page_hits s + (if hit then 1 else 0)"
    and "page_faults (snd (access_memory s address)) = page_faults s + (if hit then 0 else 1)"
    and "length (memory (snd (access_memory s address))) = length (memory s)"
    and "page_size (snd (access_memory s address)) = page_size s"
proof -
  note r = access_frame_num_range [OF assms(2), of address]
  show "fst (access_memory s address) = Inr hit"
    using assms(1) r unfolding access_memory_def Let_def hit_def by simp
  show "memory_accesses (snd (access_memory s address)) = memory_accesses s + 1"
    using assms(1) r unfolding access_memory_def Let_def by simp
  show "page_hits (snd (access_memory s address)) = page_hits s + (if hit then 1 else 0)"
    using assms(1) r unfolding access_memory_def Let_def hit_def by simp
  show "page_faults (snd (access_memory s address)) = page_faults s + (if hit then 0 else 1)"
    using assms(1) r unfolding access_memory_def Let_def hit_def by simp
  show "length (memory (snd (access_memory s address))) = length (memory s)"
    using assms(1) r unfolding access_memory_def Let_def by simp
  show "page_size (snd (access_memory s address)) = page_size s"
    using assms(1) r unfolding access_memory_def Let_def by simp
qed



text \<open>
  The boundary of the two access properties: on an engine without frames the clamp yields
  \<open>-1\<close>, the read of the frame raises, and the access has already been counted.
\<close>

lemma access_without_frames:
  assumes "page_size s \<noteq> 0" and "memory s = []"
  shows "access_memory s address
       = (Inl IndexError, s\<lparr>memory_accesses := memory_accesses s + 1\<rparr>)"
  using assms by (simp add: access_memory_def access_frame_num_def Let_def)

subsection \<open>Counters under accesses\<close>

lemma new_engine_fields:
  assumes "new_engine tech msize psize alg = Inr e"
  shows "page_size e = psize" and "psize \<noteq> 0" and "total_frames e = msize div psize"
    and "memory e = replicate (nat (msize div psize)) free_frame"
    and "page_hits e = 0" and "page_faults e = 0" and "memory_accesses e = 0"
    and "page_table e = []" and "page_queue e = []" and "page_access_time e = []"
    and "next_id e = 1" and "algorithm e = alg"
  using assms by (auto simp: new_engine_def split: if_splits)

lemma access_run_counters:
  assumes "page_size s \<noteq> 0" and "memory s \<noteq> []"
    and "page_hits s + page_faults s = memory_accesses s"
  shows "page_hits (run_operations s (map Access addresses))
           + page_faults (run_operations s (map Access addresses))
         = memory_accesses (run_operations s (map Access addresses))"
  using assms
proof (induction addresses arbitrary: s)
  case Nil
  then show ?case by (simp add: run_operations_def)
next
  case (Cons a addresses)
  let ?s = "snd (access_memory s a)"
  have "page_size ?s \<noteq> 0"
    using access_memory_fields(6) [OF Cons.prems(1,2)] Cons.prems(1) by simp
  moreover have "memory ?s \<noteq> []"
    using access_memory_fields(5) [OF Cons.prems(1,2), of a] Cons.prems(2) by auto
  moreover have "page_hits ?s + page_faults ?s = memory_accesses ?s"
    using access_memory_fields(2,3,4) [OF Cons.prems(1,2), of a] Cons.prems(3) by simp
  ultimately show ?case
    using Cons.IH [of ?s] by (simp add: run_operations_def)
qed

text \<open>
  C2. Starting from a freshly constructed engine that has at least one frame, after any
  sequence of \<open>access\<close> operations the counters satisfy
  \<open>page_hits + page_faults = memory_accesses\<close>.
\<close>

theorem access_counters_balance:
  assumes "new_engine tech msize psize alg = Inr e" and "0 < total_frames e"
  shows "page_hits (run_operations e (map Access addresses))
           + page_faults (run_operations e (map Access addresses))
         = memory_accesses (run_operations e (map Access addresses))"
proof -
  note f = new_engine_fields [OF assms(1)]
  have "memory e \<noteq> []"
    using f(3,4) assms(2) by (auto simp: replicate_empty)
  moreover have "page_size e \<noteq> 0" using f(1,2) by simp
  ultimately show ?thesis
    using f(5,6,7) by (intro access_run_counters) simp_all
qed

theorem access_counters_balance_witness:
  "new_engine ''paging'' 256 64 ''FIFO'' = Inr (engine4 ''FIFO'')
   \<and> 0 < total_frames (engine4 ''FIFO'')
   \<and> page_hits (run_operations (engine4 ''FIFO'') (map Access [0, 0, 500, - 3]))
       + page_faults (run_operations (engine4 ''FIFO'') (map Access [0, 0, 500, - 3]))
     = memory_accesses (run_operations (engine4 ''FIFO'') (map Access [0, 0, 500, - 3]))"
proof -
  have h1: "new_engine ''paging'' 256 64 ''FIFO'' = Inr (engine4 ''FIFO'')"
    by (simp add: new_engine_def engine4_def numeral_eq_Suc)
  have h2: "0 < total_frames (engine4 ''FIFO'')"
    by (simp add: engine4_def)
  from access_counters_balance [OF h1 h2, of "[0, 0, 500, - 3]"] h1 h2
  show ?thesis by simp
qed

subsection \<open>Eviction order on four frames\<close>

lemma single_page:
  assumes "0 < sz" and "sz \<le> page_size s"
  shows "num_pages_needed s sz = 1"
proof -
  have "sz + page_size s - 1 = 1 * page_size s + (sz - 1)" by simp
  moreover have "0 \<le> sz - 1" "sz - 1 < page_size s" using assms by simp_all
  ultimately show ?thesis
    unfolding num_pages_needed_def
    by (metis div_pos_pos_trivial add.commute div_mult_self1 add_0 less_irrefl
          mult.commute mult_1 assms order_less_le_trans)
qed

lemmas eval_defs = allocate_memory_def free_frames_def py_take_def allocate_frame_def Let_def
  replace_pages_def select_victim_def evict_frame_def free_frame_def allocated_frame_def
  first_allocated_def allocated_frames_def

lemma new_engine_four:
  assumes "new_engine tech msize psize alg = Inr e" and "total_frames e = 4"
  shows "e = four_frames tech msize psize alg"
  using assms by (auto simp: new_engine_def four_frames_def numeral_eq_Suc split: if_splits)

lemma new_engine4: "new_engine ''paging'' 256 64 alg = Inr (engine4 alg)"
  by (simp add: new_engine_def engine4_def numeral_eq_Suc)

lemma fifo_four_allocations:
  assumes "0 < psize" "0 < a" "a \<le> psize" "0 < b" "b \<le> psize"
    "0 < c" "c \<le> psize" "0 < d" "d \<le> psize"
  shows "run_operations (four_frames tech msize psize ''FIFO'')
           [Allocate a, Allocate b, Allocate c, Allocate d]
       = \<lparr>technique = tech, memory_size = msize, page_size = psize, algorithm = ''FIFO'',
          total_frames = 4,
          memory = [allocated_frame 1, allocated_frame 2, allocated_frame 3, allocated_frame 4],
          page_table = [(1, [0]), (2, [1]), (3, [2]), (4, [3])],
          page_queue = [(1, 0), (2, 1), (3, 2), (4, 3)], page_access_time = [],
          page_faults = 0, memory_accesses = 0, page_hits = 0,
          operations = [OpAllocate 1 a [0], OpAllocate 2 b [1], OpAllocate 3 c [2],
                        OpAllocate 4 d [3]],
          next_id = 5\<rparr>"
  using assms
  by (simp add: run_operations_def four_frames_def eval_defs single_page)

text \<open>
  C3. A FIFO engine with four frames receives four single-frame requests: the owners
  1, 2, 3, 4 (A, B, C, D) hold the frames 0, 1, 2, 3. The fifth single-frame request finds
  no free frame and asks the replacement routine for one victim. That routine frees frame 0,
  the frame of owner 1, and nothing else: the frames of 2, 3 and 4 stay as they are, owner 1
  leaves the page table and one page fault is counted. The new owner 5 then gets frame 0.
\<close>

theorem fifo_evicts_oldest:
  assumes "new_engine tech msize psize ''FIFO'' = Inr e" and "total_frames e = 4"
    and "0 < psize"
    and "\<forall>sz \<in> set [a, b, c, d, x]. 0 < sz \<and> sz \<le> psize"
    and "s4 = run_operations e [Allocate a, Allocate b, Allocate c, Allocate d]"
  shows "memory s4 = [allocated_frame 1, allocated_frame 2, allocated_frame 3, allocated_frame 4]
     \<and> page_queue s4 = [(1, 0), (2, 1), (3, 2), (4, 3)]
     \<and> memory (replace_pages 1 s4)
         = [free_frame, allocated_frame 2, allocated_frame 3, allocated_frame 4]
     \<and> page_table (replace_pages 1 s4) = [(2, [1]), (3, [2]), (4, [3])]
     \<and> page_faults (replace_pages 1 s4) = page_faults s4 + 1
     \<and> fst (allocate_memory s4 x) = Inr 0
     \<and> memory (snd (allocate_memory s4 x))
         = [allocated_frame 5, allocated_frame 2, allocated_frame 3, allocated_frame 4]
     \<and> page_table (snd (allocate_memory s4 x)) = [(2, [1]), (3, [2]), (4, [3]), (5, [0])]
     \<and> page_queue (snd (allocate_memory s4 x)) = [(2, 1), (3, 2), (4, 3), (5, 0)]
     \<and> page_faults (snd (allocate_memory s4 x)) = page_faults s4 + 1"
proof -
  have e: "e = four_frames tech msize psize ''FIFO''"
    using assms(1,2) by (rule new_engine_four)
  have s4: "s4 = \<lparr>technique = tech, memory_size = msize, page_size = psize,
      algorithm = ''FIFO'', total_frames = 4,
      memory = [allocated_frame 1, allocated_frame 2, allocated_frame 3, allocated_frame 4],
      page_table = [(1, [0]), (2, [1]), (3, [2]), (4, [3])],
      page_queue = [(1, 0), (2, 1), (3, 2), (4, 3)], page_access_time = [],
      page_faults = 0, memory_accesses = 0, page_hits = 0,
      operations = [OpAllocate 1 a [0], OpAllocate 2 b [1], OpAllocate 3 c [2],
                    OpAllocate 4 d [3]],
      next_id = 5\<rparr>"
    unfolding assms(5) e using assms(3,4) by (intro fifo_four_allocations) simp_all
  have x: "0 < x" "x \<le> psize" using assms(4) by simp_all
  have r: "replace_pages 1 s4
      = s4\<lparr>memory := [free_frame, allocated_frame 2, allocated_frame 3, allocated_frame 4],
           page_table := [(2, [1]), (3, [2]), (4, [3])],
           page_queue := [(2, 1), (3, 2), (4, 3)],
           page_faults := 1\<rparr>"
    unfolding s4 by (simp add: eval_defs)
  have al: "allocate_memory s4 x
      = (Inr 0,
         s4\<lparr>memory := [allocated_frame 5, allocated_frame 2, allocated_frame 3,
                        allocated_frame 4],
            page_table := [(2, [1]), (3, [2]), (4, [3]), (5, [0])],
            page_queue := [(2, 1), (3, 2), (4, 3), (5, 0)],
            page_faults := 1, operations := operations s4 @ [OpAllocate 5 x [0]],
            next_id := 6\<rparr>)"
    unfolding s4 using x assms(3) by (simp add: eval_defs single_page)
  show ?thesis
    unfolding al r unfolding s4 by simp
qed

theorem fifo_evicts_oldest_witness:
  "new_engine ''paging'' 256 64 ''FIFO'' = Inr (engine4 ''FIFO'')
   \<and> total_frames (engine4 ''FIFO'') = 4
   \<and> memory (replace_pages 1
        (run_operations (engine4 ''FIFO'') [Allocate 64, Allocate 1, Allocate 30, Allocate 64]))
       = [free_frame, allocated_frame 2, allocated_frame 3, allocated_frame 4]
   \<and> memory (snd (allocate_memory
        (run_operations (engine4 ''FIFO'') [Allocate 64, Allocate 1, Allocate 30, Allocate 64])
        64))
       = [allocated_frame 5, allocated_frame 2, allocated_frame 3, allocated_frame 4]"
proof -
  have h1: "new_engine ''paging'' 256 64 ''FIFO'' = Inr (engine4 ''FIFO'')"
    by (rule new_engine4)
  have h2: "total_frames (engine4 ''FIFO'') = 4"
    by (simp add: engine4_def)
  have h3: "(0::int) < 64" by simp
  have h4: "\<forall>sz \<in> set [64, 1, 30, 64, 64 :: int]. 0 < sz \<and> sz \<le> 64" by simp
  from fifo_evicts_oldest [OF h1 h2 h3 h4 refl] h1 h2 show ?thesis by simp
qed

text \<open>
  C4. An LRU engine with four frames receives the same four single-frame requests and then
  an access to an address in frame 0, the frame of owner 1 (A): a hit that stamps that
  frame with time 1 while the others keep time 0. The next single-frame request evicts
  frame 1, the frame of owner 2 (B), the first pair of minimal time; the frame of owner 1
  stays allocated to owner 1, and the new owner 5 gets frame 1.
\<close>

theorem lru_evicts_least_recent:
  assumes "new_engine tech msize psize ''LRU'' = Inr e" and "total_frames e = 4"
    and "0 < psize"
    and "\<forall>sz \<in> set [a, b, c, d, x]. 0 < sz \<and> sz \<le> psize"
    and "0 \<le> addr \<and> addr < psize"
    and "s4 = run_operations e [Allocate a, Allocate b, Allocate c, Allocate d]"
    and "s5 = snd (access_memory s4 addr)"
  shows "memory s4 = [allocated_frame 1, allocated_frame 2, allocated_frame 3, allocated_frame 4]
     \<and> fst (access_memory s4 addr) = Inr True
     \<and> page_access_time s5
         = [((Some 1, 0), 1), ((Some 2, 1), 0), ((Some 3, 2), 0), ((Some 4, 3), 0)]
     \<and> memory (replace_pages 1 s5)
         = [allocated_frame 1, free_frame, allocated_frame 3, allocated_frame 4]
     \<and> page_table (replace_pages 1 s5) = [(1, [0]), (3, [2]), (4, [3])]
     \<and> page_faults (replace_pages 1 s5) = page_faults s5 + 1
     \<and> fst (allocate_memory s5 x) = Inr (1 * psize)
     \<and> memory (snd (allocate_memory s5 x))
         = [allocated_frame 1, allocated_frame 5, allocated_frame 3, allocated_frame 4]
     \<and> page_table (snd (allocate_memory s5 x)) = [(1, [0]), (3, [2]), (4, [3]), (5, [1])]
     \<and> page_faults (snd (allocate_memory s5 x)) = page_faults s5 + 1"
proof -
  have e: "e = four_frames tech msize psize ''LRU''"
    using assms(1,2) by (rule new_engine_four)
  have sz: "0 < a" "a \<le> psize" "0 < b" "b \<le> psize" "0 < c" "c \<le> psize"
    "0 < d" "d \<le> psize" "0 < x" "x \<le> psize"
    using assms(4) by simp_all
  have s4: "s4 = \<lparr>technique = tech, memory_size = msize, page_size = psize,
      algorithm = ''LRU'', total_frames = 4,
      memory = [allocated_frame 1, allocated_frame 2, allocated_frame 3, allocated_frame 4],
      page_table = [(1, [0]), (2, [1]), (3, [2]), (4, [3])],
      page_queue = [],
      page_access_time =
        [((Some 1, 0), 0), ((Some 2, 1), 0), ((Some 3, 2), 0), ((Some 4, 3), 0)],
      page_faults = 0, memory_accesses = 0, page_hits = 0,
      operations = [OpAllocate 1 a [0], OpAllocate 2 b [1], OpAllocate 3 c [2],
                    OpAllocate 4 d [3]],
      next_id = 5\<rparr>"
    unfolding assms(6) e using assms(3) sz
    by (simp add: run_operations_def four_frames_def eval_defs single_page)
  have ac: "access_memory s4 addr
      = (Inr True,
         s4\<lparr>page_access_time :=
               [((Some 1, 0), 1), ((Some 2, 1), 0), ((Some 3, 2), 0), ((Some 4, 3), 0)],
            memory_accesses := 1, page_hits := 1,
            operations := operations s4 @ [OpAccess addr Hit]\<rparr>)"
    unfolding s4 using assms(3,5)
    by (simp add: access_memory_def access_frame_num_def allocated_frame_def)
  have s5: "s5 = s4\<lparr>page_access_time :=
               [((Some 1, 0), 1), ((Some 2, 1), 0), ((Some 3, 2), 0), ((Some 4, 3), 0)],
            memory_accesses := 1, page_hits := 1,
            operations := operations s4 @ [OpAccess addr Hit]\<rparr>"
    unfolding assms(7) ac by simp
  have r: "replace_pages 1 s5
      = s5\<lparr>memory := [allocated_frame 1, free_frame, allocated_frame 3, allocated_frame 4],
           page_table := [(1, [0]), (3, [2]), (4, [3])],
           page_access_time := [((Some 1, 0), 1), ((Some 3, 2), 0), ((Some 4, 3), 0)],
           page_faults := 1\<rparr>"
    unfolding s5 s4 by (simp add: eval_defs)
  have al: "allocate_memory s5 x
      = (Inr psize,
         s5\<lparr>memory := [allocated_frame 1, allocated_frame 5, allocated_frame 3,
                        allocated_frame 4],
            page_table := [(1, [0]), (3, [2]), (4, [3]), (5, [1])],
            page_access_time :=
              [((Some 1, 0), 1), ((Some 3, 2), 0), ((Some 4, 3), 0), ((Some 5, 1), 1)],
            page_faults := 1, operations := operations s5 @ [OpAllocate 5 x [1]],
            next_id := 6\<rparr>)"
    unfolding s5 s4 using sz assms(3) by (simp add: eval_defs single_page)
  show ?thesis
    unfolding al r ac unfolding s5 unfolding s4 by simp
qed

theorem lru_evicts_least_recent_witness:
  "new_engine ''paging'' 256 64 ''LRU'' = Inr (engine4 ''LRU'')
   \<and> total_frames (engine4 ''LRU'') = 4
   \<and> memory (replace_pages 1 (snd (access_memory
        (run_operations (engine4 ''LRU'') [Allocate 64, Allocate 1, Allocate 30, Allocate 64])
        5)))
       = [allocated_frame 1, free_frame, allocated_frame 3, allocated_frame 4]
   \<and> memory (snd (allocate_memory (snd (access_memory
        (run_operations (engine4 ''LRU'') [Allocate 64, Allocate 1, Allocate 30, Allocate 64])
        5)) 64))
       = [allocated_frame 1, allocated_frame 5, allocated_frame 3, allocated_frame 4]"
proof -
  have h1: "new_engine ''paging'' 256 64 ''LRU'' = Inr (engine4 ''LRU'')"
    by (rule new_engine4)
  have h2: "total_frames (engine4 ''LRU'') = 4"
    by (simp add: engine4_def)
  have h3: "(0::int) < 64" by simp
  have h4: "\<forall>sz \<in> set [64, 1, 30, 64, 64 :: int]. 0 < sz \<and> sz \<le> 64" by simp
  have h5: "(0::int) \<le> 5 \<and> (5::int) < 64" by simp
  from lru_evicts_least_recent [OF h1 h2 h3 h4 h5 refl refl] h1 h2 show ?thesis by simp
qed

section \<open>Consistency of reachable engines\<close>

subsection \<open>Association lists as dictionaries\<close>

lemma set_update_distinct:
  "distinct (map fst al) \<Longrightarrow>
     set (AList.update k v al) = insert (k, v) {e \<in> set al. fst e \<noteq> k}"
  by (induction al) (auto simp: rev_image_eqI)

lemma set_update_subset: "set (AList.update k v al) \<subseteq> insert (k, v) (set al)"
  by (induction al) auto

lemma set_delete: "set (AList.delete k al) = {e \<in> set al. fst e \<noteq> k}"
  by (auto simp: AList.delete_eq)

lemma foldl_delete_filter:
  "foldl (\<lambda>d key. AList.delete key d) d ks = filter (\<lambda>e. fst e \<notin> set ks) d"
proof (induction ks arbitrary: d)
  case Nil
  then show ?case by simp
next
  case (Cons k ks)
  have "foldl (\<lambda>d key. AList.delete key d) d (k # ks)
      = filter (\<lambda>e. fst e \<notin> set ks) (AList.delete k d)"
    using Cons.IH [of "AList.delete k d"] by simp
  also have "\<dots> = filter (\<lambda>e. fst e \<notin> set (k # ks)) d"
    by (auto simp: AList.delete_eq case_prod_unfold intro: filter_cong)
  finally show ?case .
qed

subsection \<open>Frame scans\<close>

lemma frame_eq_allocated:
  "status fr = Allocated \<Longrightarrow> frame_id fr = Some p \<Longrightarrow> fr = allocated_frame p"
  by (simp add: allocated_frame_def)

lemma allocated_frame_simps [simp]:
  "status (allocated_frame p) = Allocated" "frame_id (allocated_frame p) = Some p"
  "status free_frame = Free" "frame_id free_frame = None"
  "allocated_frame p \<noteq> free_frame" "free_frame \<noteq> allocated_frame p"
  "allocated_frame p = allocated_frame q \<longleftrightarrow> p = q"
  by (auto simp: allocated_frame_def free_frame_def)

lemma set_free_frames:
  "set (free_frames s) = {i. i < length (memory s) \<and> status (memory s ! i) = Free}"
  by (auto simp: free_frames_def in_set_enumerate_eq image_iff)

lemma distinct_free_frames: "distinct (free_frames s)"
proof -
  have "distinct (map fst (enumerate 0 (memory s)))" by simp
  then have "distinct (map fst (filter (\<lambda>(i, f). status f = Free) (enumerate 0 (memory s))))"
    by (rule distinct_map_filter)
  then show ?thesis by (simp add: free_frames_def)
qed

lemma set_allocated_frames:
  "set (allocated_frames s)
     = {(i, fr). i < length (memory s) \<and> fr = memory s ! i \<and> status fr = Allocated}"
  by (auto simp: allocated_frames_def in_set_enumerate_eq)

lemma set_py_take: "set (py_take n xs) \<subseteq> set xs"
  by (auto simp: py_take_def dest: in_set_takeD)

lemma distinct_py_take: "distinct xs \<Longrightarrow> distinct (py_take n xs)"
  by (simp add: py_take_def)

lemma foldl_update_nth:
  "i < length m \<Longrightarrow>
     foldl (\<lambda>m f. m[f := v]) m fs ! i = (if i \<in> set fs then v else m ! i)"
  by (induction fs arbitrary: m) (auto simp: nth_list_update)

lemma foldl_update_length [simp]: "length (foldl (\<lambda>m f. m[f := v]) m fs) = length m"
  by (induction fs arbitrary: m) auto

lemma engine_inv_operations [simp]:
  "engine_inv (s\<lparr>operations := x\<rparr>) = engine_inv s"
  by (simp add: engine_inv_def)

lemma engine_inv_counters [simp]:
  "engine_inv (s\<lparr>page_faults := a\<rparr>) = engine_inv s"
  "engine_inv (s\<lparr>page_hits := b\<rparr>) = engine_inv s"
  "engine_inv (s\<lparr>memory_accesses := c\<rparr>) = engine_inv s"
  by (simp_all add: engine_inv_def)

text \<open>What the invariant says about one allocated frame.\<close>

lemma inv_allocated_entry:
  assumes "engine_inv s" and "i < length (memory s)" and "status (memory s ! i) = Allocated"
  obtains p fs where "memory s ! i = allocated_frame p" and "(p, fs) \<in> set (page_table s)"
    and "i \<in> set fs" and "map_of (page_table s) p = Some fs" and "p < next_id s"
proof -
  from assms obtain p fs where a: "frame_id (memory s ! i) = Some p"
    "(p, fs) \<in> set (page_table s)" "i \<in> set fs"
    unfolding engine_inv_def by blast
  have d: "distinct (map fst (page_table s))" using assms(1) by (simp add: engine_inv_def)
  have "memory s ! i = allocated_frame p"
    using assms(3) a(1) by (rule frame_eq_allocated)
  moreover have "map_of (page_table s) p = Some fs" using d a(2) by simp
  moreover have "p < next_id s" using assms(1) a(2) unfolding engine_inv_def by blast
  ultimately show thesis using a that by blast
qed

lemma inv_entry_frames:
  assumes "engine_inv s" and "(p, fs) \<in> set (page_table s)" and "f \<in> set fs"
  shows "f < length (memory s)" and "memory s ! f = allocated_frame p"
  using assms unfolding engine_inv_def by blast+

lemma inv_queue_frames:
  assumes "engine_inv s" and "(p, f) \<in> set (page_queue s)"
  shows "f < length (memory s)" and "memory s ! f = allocated_frame p"
  using assms unfolding engine_inv_def by blast+

lemma inv_time_frames:
  assumes "engine_inv s" and "(k, t) \<in> set (page_access_time s)"
  obtains p where "k = (Some p, snd k)" and "snd k < length (memory s)"
    and "memory s ! snd k = allocated_frame p"
proof -
  from assms obtain p where "fst k = Some p" "snd k < length (memory s)"
    "memory s ! snd k = allocated_frame p"
    unfolding engine_inv_def by blast
  then show thesis using that [of p] by (cases k) simp
qed

lemma engine_invI:
  assumes "page_size s \<noteq> 0" and "distinct (map fst (page_table s))"
    and "\<And>i. i < length (memory s) \<Longrightarrow> status (memory s ! i) = Allocated \<Longrightarrow>
           \<exists>p fs. memory s ! i = allocated_frame p \<and> (p, fs) \<in> set (page_table s) \<and> i \<in> set fs"
    and "\<And>p fs. (p, fs) \<in> set (page_table s) \<Longrightarrow> p < next_id s"
    and "\<And>p fs f. (p, fs) \<in> set (page_table s) \<Longrightarrow> f \<in> set fs \<Longrightarrow>
           f < length (memory s) \<and> memory s ! f = allocated_frame p"
    and "distinct (page_queue s)"
    and "\<And>p f. (p, f) \<in> set (page_queue s) \<Longrightarrow>
           f < length (memory s) \<and> memory s ! f = allocated_frame p"
    and "\<And>a g t. ((a, g), t) \<in> set (page_access_time s) \<Longrightarrow>
           \<exists>p. a = Some p \<and> g < length (memory s) \<and> memory s ! g = allocated_frame p"
    and "algorithm s \<noteq> ''FIFO'' \<Longrightarrow> page_queue s = []"
    and "algorithm s \<noteq> ''LRU'' \<Longrightarrow> page_access_time s = []"
  shows "engine_inv s"
  unfolding engine_inv_def
proof (intro conjI)
  show "\<forall>i<length (memory s). status (memory s ! i) = Allocated \<longrightarrow>
      (\<exists>p fs. frame_id (memory s ! i) = Some p \<and> (p, fs) \<in> set (page_table s) \<and> i \<in> set fs)"
  proof (intro allI impI)
    fix i assume "i < length (memory s)" "status (memory s ! i) = Allocated"
    from assms(3) [OF this] obtain p fs where "memory s ! i = allocated_frame p"
      "(p, fs) \<in> set (page_table s)" "i \<in> set fs" by blast
    then show "\<exists>p fs. frame_id (memory s ! i) = Some p \<and> (p, fs) \<in> set (page_table s)
        \<and> i \<in> set fs"
      by (intro exI [of _ p] exI [of _ fs]) simp
  qed
  show "\<forall>(p, fs)\<in>set (page_table s).
      p < next_id s \<and> (\<forall>f\<in>set fs. f < length (memory s) \<and> memory s ! f = allocated_frame p)"
    using assms(4,5) by blast
  show "\<forall>(p, f)\<in>set (page_queue s). f < length (memory s) \<and> memory s ! f = allocated_frame p"
    using assms(7) by blast
  show "\<forall>(k, t)\<in>set (page_access_time s).
      \<exists>p. fst k = Some p \<and> snd k < length (memory s) \<and> memory s ! snd k = allocated_frame p"
    using assms(8) by fastforce
qed (use assms in simp_all)

lemma inv_basic:
  assumes "engine_inv s"
  shows "page_size s \<noteq> 0" and "distinct (map fst (page_table s))" and "distinct (page_queue s)"
    and "algorithm s \<noteq> ''FIFO'' \<Longrightarrow> page_queue s = []"
    and "algorithm s \<noteq> ''LRU'' \<Longrightarrow> page_access_time s = []"
    and "\<And>p fs. (p, fs) \<in> set (page_table s) \<Longrightarrow> p < next_id s"
  using assms unfolding engine_inv_def by blast+

subsection \<open>Eviction\<close>

lemma min_by_time_mem: "min_by_time b xs \<in> set (b # xs)"
  by (induction xs arbitrary: b) (auto split: if_splits)

lemma evict_frame_inv:
  assumes inv: "engine_inv s" and f: "f < length (memory s)"
    and fr: "memory s ! f = allocated_frame p"
    and nq: "(p, f) \<notin> set (page_queue s)"
    and nt: "\<forall>t. ((Some p, f), t) \<notin> set (page_access_time s)"
  shows "engine_inv (evict_frame s p f)"
proof -
  have st: "status (memory s ! f) = Allocated" using fr by simp
  from inv_allocated_entry [OF inv f st] fr
  obtain fs where fs: "(p, fs) \<in> set (page_table s)" "f \<in> set fs"
    "map_of (page_table s) p = Some fs"
    by (metis allocated_frame_simps(7))
  define fs' where "fs' = filter (\<lambda>g. g \<noteq> f) fs"
  define pt' where "pt' = (if fs' = [] then AList.delete p (page_table s)
                           else AList.update p fs' (page_table s))"
  let ?t = "evict_frame s p f"
  have d: "distinct (map fst (page_table s))" using inv by (rule inv_basic)
  have flds: "memory ?t = (memory s)[f := free_frame]" "page_table ?t = pt'"
    "page_queue ?t = page_queue s" "page_access_time ?t = page_access_time s"
    "next_id ?t = next_id s" "algorithm ?t = algorithm s" "page_size ?t = page_size s"
    by (simp_all add: evict_frame_def fs(3) Let_def fs'_def pt'_def delete_update_same)
  have spt: "set pt' = (if fs' = [] then {} else {(p, fs')}) \<union> {e \<in> set (page_table s). fst e \<noteq> p}"
    using d by (auto simp: pt'_def set_delete set_update_distinct)
  have same: "gs = fs" if "(p, gs) \<in> set (page_table s)" for gs
    using d that fs(3) by simp
  have old: "\<exists>gs0. (q, gs0) \<in> set (page_table s) \<and> set gs \<subseteq> set gs0 \<and> (q = p \<longrightarrow> f \<notin> set gs)"
    if "(q, gs) \<in> set pt'" for q gs
    using that spt fs(1) by (auto simp: fs'_def split: if_splits)
  show ?thesis
  proof (rule engine_invI, goal_cases)
    case 1
    show ?case using inv_basic(1) [OF inv] flds by simp
  next
    case 2
    show ?case using d by (simp add: flds pt'_def distinct_delete distinct_update)
  next
    case (3 i)
    then have if': "i \<noteq> f" and il: "i < length (memory s)"
      by (auto simp: flds nth_list_update split: if_splits)
    then have ia: "status (memory s ! i) = Allocated" using 3 by (simp add: flds)
    from inv_allocated_entry [OF inv il ia]
    obtain q gs where q: "memory s ! i = allocated_frame q" "(q, gs) \<in> set (page_table s)"
      "i \<in> set gs" by blast
    have "\<exists>gs'. (q, gs') \<in> set pt' \<and> i \<in> set gs'"
    proof (cases "q = p")
      case True
      then have "gs = fs" using same q(2) by simp
      then have "i \<in> set fs'" using q(3) if' by (simp add: fs'_def)
      then show ?thesis using True spt by auto
    next
      case False
      then show ?thesis using q spt by auto
    qed
    then show ?case using q(1) if' by (auto simp: flds)
  next
    case (4 q gs)
    then have "(q, gs) \<in> set pt'" by (simp add: flds)
    from old [OF this] obtain gs0 where "(q, gs0) \<in> set (page_table s)" by blast
    then show ?case using inv_basic(6) [OF inv] by (simp add: flds)
  next
    case (5 q gs g)
    then have "(q, gs) \<in> set pt'" by (simp add: flds)
    from old [OF this] obtain gs0 where g0: "(q, gs0) \<in> set (page_table s)"
      "set gs \<subseteq> set gs0" "q = p \<longrightarrow> f \<notin> set gs" by blast
    have gg: "g \<in> set gs0" using g0(2) 5(2) by auto
    have "g \<noteq> f"
    proof (cases "q = p")
      case True then show ?thesis using g0(3) 5(2) by auto
    next
      case False
      then show ?thesis using inv_entry_frames(2) [OF inv g0(1) gg] fr by auto
    qed
    then show ?case using inv_entry_frames [OF inv g0(1) gg] by (simp add: flds)
  next
    case 6
    show ?case using inv_basic(3) [OF inv] by (simp add: flds)
  next
    case (7 q g)
    then have m: "(q, g) \<in> set (page_queue s)" by (simp add: flds)
    have "g \<noteq> f" using inv_queue_frames(2) [OF inv m] fr nq m by auto
    then show ?case using inv_queue_frames [OF inv m] by (simp add: flds)
  next
    case (8 a g t)
    then have m: "((a, g), t) \<in> set (page_access_time s)" by (simp add: flds)
    from inv_time_frames [OF inv m] obtain q where q: "a = Some q" "g < length (memory s)"
      "memory s ! g = allocated_frame q" by auto
    have "g \<noteq> f" using q fr nt m by auto
    then show ?case using q by (simp add: flds)
  next
    case 9
    then show ?case using inv_basic(4) [OF inv] by (simp add: flds)
  next
    case 10
    then show ?case using inv_basic(5) [OF inv] by (simp add: flds)
  qed
qed

lemma first_allocated_Some:
  assumes "first_allocated s = Some (s1, pid, i)"
  shows "s1 = s" and "i < length (memory s)" and "status (memory s ! i) = Allocated"
    and "pid = frame_id (memory s ! i)"
proof -
  from assms obtain fr rest where a: "allocated_frames s = (i, fr) # rest"
    and b: "s1 = s" "pid = frame_id fr"
    by (auto simp: first_allocated_def split: list.splits)
  have "(i, fr) \<in> set (allocated_frames s)" using a by simp
  then have c: "i < length (memory s)" "fr = memory s ! i" "status fr = Allocated"
    by (auto simp: set_allocated_frames)
  show "s1 = s" and "i < length (memory s)" and "status (memory s ! i) = Allocated"
    and "pid = frame_id (memory s ! i)"
    using b c by simp_all
qed

lemma engine_inv_drop_metadata:
  assumes inv: "engine_inv s" and "set q \<subseteq> set (page_queue s)" and "distinct q"
    and "set d \<subseteq> set (page_access_time s)"
    and "algorithm s \<noteq> ''FIFO'' \<longrightarrow> q = []" and "algorithm s \<noteq> ''LRU'' \<longrightarrow> d = []"
  shows "engine_inv (s\<lparr>page_queue := q, page_access_time := d\<rparr>)"
proof (rule engine_invI, goal_cases)
  case 1
  show ?case using inv_basic(1) [OF inv] by simp
next
  case 2
  show ?case using inv_basic(2) [OF inv] by simp
next
  case (3 i)
  then have "i < length (memory s)" "status (memory s ! i) = Allocated" by simp_all
  from inv_allocated_entry [OF inv this]
  obtain p fs where "memory s ! i = allocated_frame p" "(p, fs) \<in> set (page_table s)"
    "i \<in> set fs" by blast
  then show ?case by (intro exI [of _ p] exI [of _ fs]) simp
next
  case (4 p fs)
  then show ?case using inv_basic(6) [OF inv] by simp
next
  case (5 p fs f)
  then show ?case using inv_entry_frames [OF inv, of p fs f] by simp
next
  case 6
  show ?case using assms(3) by simp
next
  case (7 p f)
  then have "(p, f) \<in> set (page_queue s)" using assms(2) by auto
  then show ?case using inv_queue_frames [OF inv] by simp
next
  case (8 a g t)
  then have m: "((a, g), t) \<in> set (page_access_time s)" using assms(4) by auto
  from inv_time_frames [OF inv m] show ?case by auto
next
  case 9
  then show ?case using assms(5) by simp
next
  case 10
  then show ?case using assms(6) by simp
qed

lemma select_victim_inv:
  assumes inv: "engine_inv s" and sel: "select_victim s = Some (s1, pid, f)"
  shows "engine_inv s1" and "memory s1 = memory s"
    and "pid = Some p \<Longrightarrow> f < length (memory s) \<Longrightarrow>
           memory s ! f = allocated_frame p \<and> (p, f) \<notin> set (page_queue s1)
           \<and> (\<forall>t. ((Some p, f), t) \<notin> set (page_access_time s1))"
proof -
  consider (fifo) pq rest where "algorithm s = ''FIFO''" "page_queue s = pq # rest"
    | (lru) item items where "algorithm s \<noteq> ''FIFO''" "algorithm s = ''LRU''"
        "page_access_time s = item # items"
    | (fallback) "first_allocated s = Some (s1, pid, f)"
        "algorithm s = ''FIFO'' \<longrightarrow> page_queue s = []"
        "algorithm s = ''LRU'' \<longrightarrow> page_access_time s = []"
    using sel by (auto simp: select_victim_def split: if_splits list.splits)
  then have "engine_inv s1 \<and> memory s1 = memory s
      \<and> (pid = Some p \<longrightarrow> f < length (memory s) \<longrightarrow>
           memory s ! f = allocated_frame p \<and> (p, f) \<notin> set (page_queue s1)
           \<and> (\<forall>t. ((Some p, f), t) \<notin> set (page_access_time s1)))"
  proof cases
    case fifo
    obtain q g where pq: "pq = (q, g)" by (cases pq)
    have s1: "s1 = s\<lparr>page_queue := rest\<rparr>" "pid = Some q" "f = g"
      using sel fifo pq by (simp_all add: select_victim_def)
    have dq: "distinct (pq # rest)" using inv_basic(3) [OF inv] fifo by simp
    have "engine_inv (s\<lparr>page_queue := rest, page_access_time := page_access_time s\<rparr>)"
      using fifo dq inv_basic(5) [OF inv] by (intro engine_inv_drop_metadata [OF inv]) auto
    then have "engine_inv s1" by (simp add: s1)
    moreover have "memory s ! g = allocated_frame q"
      using inv_queue_frames(2) [OF inv, of q g] fifo pq by simp
    moreover have "(q, g) \<notin> set rest" using dq pq by simp
    moreover have "page_access_time s = []" using inv_basic(5) [OF inv] fifo by simp
    ultimately show ?thesis by (auto simp: s1)
  next
    case lru
    define key where "key = fst (min_by_time item items)"
    have s1: "s1 = s\<lparr>page_access_time := AList.delete key (page_access_time s)\<rparr>"
      "pid = fst key" "f = snd key"
      using sel lru by (auto simp add: select_victim_def Let_def key_def simp del: AList.delete_simps)
    have "min_by_time item items \<in> set (page_access_time s)"
      using min_by_time_mem [of item items] lru by simp
    then obtain t where kin: "(key, t) \<in> set (page_access_time s)"
      by (metis key_def prod.collapse)
    have q0: "page_queue s = []" using inv_basic(4) [OF inv] lru by simp
    have "engine_inv (s\<lparr>page_queue := page_queue s,
        page_access_time := AList.delete key (page_access_time s)\<rparr>)"
      using lru q0 by (intro engine_inv_drop_metadata [OF inv]) (simp_all add: set_delete subset_iff)
    then have "engine_inv s1" by (simp add: s1)
    moreover have "pid = Some p \<longrightarrow> memory s ! f = allocated_frame p"
    proof
      assume pid: "pid = Some p"
      from inv_time_frames [OF inv kin] obtain q where "key = (Some q, snd key)"
        "memory s ! snd key = allocated_frame q" by blast
      then show "memory s ! f = allocated_frame p"
        using pid s1(2,3) by (metis fst_conv option.inject)
    qed
    moreover have "pid = Some p \<longrightarrow> (\<forall>t'. ((Some p, f), t') \<notin> set (page_access_time s1))"
    proof
      assume pid: "pid = Some p"
      have "key = (Some p, f)" using pid s1(2,3) by (metis prod.collapse)
      then show "\<forall>t'. ((Some p, f), t') \<notin> set (page_access_time s1)"
        by (simp add: s1(1) set_delete)
    qed
    ultimately show ?thesis using q0 by (simp add: s1(1))
  next
    case fallback
    note fa = first_allocated_Some [OF fallback(1)]
    have q0: "page_queue s = []" using inv_basic(4) [OF inv] fallback(2) by blast
    have t0: "page_access_time s = []" using inv_basic(5) [OF inv] fallback(3) by blast
    have "pid = Some p \<longrightarrow> memory s ! f = allocated_frame p"
      using fa(3,4) by (auto intro: frame_eq_allocated)
    then show ?thesis using fa(1) inv q0 t0 by simp
  qed
  then show "engine_inv s1" and "memory s1 = memory s"
    and "pid = Some p \<Longrightarrow> f < length (memory s) \<Longrightarrow>
           memory s ! f = allocated_frame p \<and> (p, f) \<notin> set (page_queue s1)
           \<and> (\<forall>t. ((Some p, f), t) \<notin> set (page_access_time s1))"
    by blast+
qed

lemma replace_loop_inv: "engine_inv s \<Longrightarrow> engine_inv (replace_loop n s)"
proof (induction n arbitrary: s)
  case 0
  then show ?case by simp
next
  case (Suc n)
  show ?case
  proof (cases "select_victim s")
    case None
    then show ?thesis using Suc.prems by simp
  next
    case (Some r)
    obtain s1 pid f where r: "r = (s1, pid, f)" by (cases r)
    note sv = select_victim_inv [OF Suc.prems Some [unfolded r]]
    show ?thesis
    proof (cases pid)
      case None
      then show ?thesis using Some r sv(1) Suc.IH by simp
    next
      case (Some p)
      show ?thesis
      proof (cases "length (memory s1) \<le> f")
        case True
        then show ?thesis using \<open>select_victim s = Some r\<close> r Some sv(1) Suc.IH by simp
      next
        case False
        then have fl: "f < length (memory s)" using sv(2) by simp
        from sv(3) [OF Some fl] have "engine_inv (evict_frame s1 p f)"
          using sv(1,2) fl by (intro evict_frame_inv) simp_all
        then show ?thesis
          using \<open>select_victim s = Some r\<close> r Some False Suc.IH by simp
      qed
    qed
  qed
qed

lemma replace_pages_inv: "engine_inv s \<Longrightarrow> engine_inv (replace_pages n s)"
  by (simp add: replace_pages_def replace_loop_inv)

subsection \<open>The allocation loop\<close>

lemma foldl_allocate_frame:
  "memory (foldl (allocate_frame pid frames) s fs)
      = foldl (\<lambda>m f. m[f := allocated_frame pid]) (memory s) fs
   \<and> page_table (foldl (allocate_frame pid frames) s fs)
      = (if fs = [] then page_table s else AList.update pid frames (page_table s))
   \<and> page_queue (foldl (allocate_frame pid frames) s fs)
      = (if algorithm s = ''FIFO'' then page_queue s @ map (Pair pid) fs else page_queue s)
   \<and> page_access_time (foldl (allocate_frame pid frames) s fs)
      = (if algorithm s \<noteq> ''FIFO'' \<and> algorithm s = ''LRU''
         then foldl (\<lambda>d f. AList.update (Some pid, f) (memory_accesses s) d)
                (page_access_time s) fs
         else page_access_time s)
   \<and> next_id (foldl (allocate_frame pid frames) s fs) = next_id s
   \<and> algorithm (foldl (allocate_frame pid frames) s fs) = algorithm s
   \<and> page_size (foldl (allocate_frame pid frames) s fs) = page_size s
   \<and> memory_accesses (foldl (allocate_frame pid frames) s fs) = memory_accesses s"
proof (induction fs arbitrary: s)
  case Nil
  show ?case by simp
next
  case (Cons f fs)
  define s' where "s' = allocate_frame pid frames s f"
  have flds: "memory s' = (memory s)[f := allocated_frame pid]"
    "page_table s' = AList.update pid frames (page_table s)"
    "page_queue s' = (if algorithm s = ''FIFO'' then page_queue s @ [(pid, f)] else page_queue s)"
    "page_access_time s' = (if algorithm s \<noteq> ''FIFO'' \<and> algorithm s = ''LRU''
       then AList.update (Some pid, f) (memory_accesses s) (page_access_time s)
       else page_access_time s)"
    "next_id s' = next_id s" "algorithm s' = algorithm s" "page_size s' = page_size s"
    "memory_accesses s' = memory_accesses s"
    by (simp_all add: s'_def allocate_frame_def Let_def)
  have "foldl (allocate_frame pid frames) s (f # fs) = foldl (allocate_frame pid frames) s' fs"
    by (simp add: s'_def)
  then show ?case
    using Cons.IH [of s'] by (simp add: flds)
qed

lemma set_foldl_update_time:
  "set (foldl (\<lambda>d f. AList.update (k f) t d) d fs) \<subseteq> set d \<union> (\<lambda>f. (k f, t)) ` set fs"
proof (induction fs arbitrary: d)
  case Nil
  show ?case by simp
next
  case (Cons f fs)
  show ?case
    using Cons.IH [of "AList.update (k f) t d"] set_update_subset [of "k f" t d]
    by auto
qed

lemma allocate_loop_inv:
  assumes inv: "engine_inv s" and fr: "set frames \<subseteq> set (free_frames s)"
    and dist: "distinct frames"
  shows "engine_inv (foldl (allocate_frame (next_id s) frames) (s\<lparr>next_id := next_id s + 1\<rparr>) frames)"
proof -
  let ?pid = "next_id s"
  let ?s2 = "s\<lparr>next_id := next_id s + 1\<rparr>"
  define t where "t = foldl (allocate_frame ?pid frames) ?s2 frames"
  let ?t = t
  note cf = foldl_allocate_frame [of ?pid frames ?s2 frames, folded t_def]
  have mem: "memory ?t = foldl (\<lambda>m f. m[f := allocated_frame ?pid]) (memory s) frames"
    and pt: "page_table ?t = (if frames = [] then page_table s
                              else AList.update ?pid frames (page_table s))"
    and pq: "page_queue ?t = (if algorithm s = ''FIFO'' then page_queue s @ map (Pair ?pid) frames
                              else page_queue s)"
    and pat: "page_access_time ?t
      = (if algorithm s \<noteq> ''FIFO'' \<and> algorithm s = ''LRU''
         then foldl (\<lambda>d f. AList.update (Some ?pid, f) (memory_accesses s) d)
                (page_access_time s) frames
         else page_access_time s)"
    and nid: "next_id ?t = next_id s + 1" and alg: "algorithm ?t = algorithm s"
    and ps: "page_size ?t = page_size s"
    using cf by simp_all
  have len: "length (memory ?t) = length (memory s)" by (simp add: mem)
  have nth: "memory ?t ! i = (if i \<in> set frames then allocated_frame ?pid else memory s ! i)"
    if "i < length (memory s)" for i
    using that by (simp add: mem foldl_update_nth)
  have free: "f < length (memory s) \<and> status (memory s ! f) = Free" if "f \<in> set frames" for f
    using that fr by (auto simp: set_free_frames)
  have d: "distinct (map fst (page_table s))" using inv by (rule inv_basic)
  have fresh: "p \<noteq> ?pid" if "(p, fs) \<in> set (page_table s)" for p fs
    using inv_basic(6) [OF inv that] by simp
  have spt: "set (page_table ?t) = (if frames = [] then {} else {(?pid, frames)}) \<union> set (page_table s)"
    using d fresh by (auto simp: pt set_update_distinct)
  have alloc_old: "p \<noteq> ?pid \<and> f \<notin> set frames"
    if "f < length (memory s)" "memory s ! f = allocated_frame p" for p f
  proof -
    have st: "status (memory s ! f) = Allocated" using that(2) by simp
    from inv_allocated_entry [OF inv that(1) st] that(2) have "p < next_id s"
      by (metis allocated_frame_simps(7))
    moreover have "f \<notin> set frames" using free [of f] st by auto
    ultimately show ?thesis by simp
  qed
  have "engine_inv t"
  proof (rule engine_invI, goal_cases)
    case 1
    show ?case using inv_basic(1) [OF inv] by (simp add: ps)
  next
    case 2
    show ?case using d by (simp add: pt distinct_update)
  next
    case (3 i)
    then have il: "i < length (memory s)" by (simp add: len)
    show ?case
    proof (cases "i \<in> set frames")
      case True
      then show ?thesis using nth [OF il] spt by auto
    next
      case False
      then have "status (memory s ! i) = Allocated" using 3(2) nth [OF il] by simp
      from inv_allocated_entry [OF inv il this]
      obtain p fs where "memory s ! i = allocated_frame p" "(p, fs) \<in> set (page_table s)"
        "i \<in> set fs" by blast
      then show ?thesis using False nth [OF il] spt by auto
    qed
  next
    case (4 p fs)
    then show ?case using inv_basic(6) [OF inv, of p fs] by (auto simp: spt nid split: if_splits)
  next
    case (5 p fs f)
    then consider "p = ?pid" "fs = frames" | "(p, fs) \<in> set (page_table s)"
      by (auto simp: spt split: if_splits)
    then show ?case
    proof cases
      case 1
      then show ?thesis using 5(2) free [of f] nth [of f] by (simp add: len)
    next
      case 2
      note e = inv_entry_frames [OF inv 2 5(2)]
      then show ?thesis using alloc_old [OF e] nth [of f] by (simp add: len)
    qed
  next
    case 6
    have "(?pid, f) \<notin> set (page_queue s)" for f
      using inv_queue_frames [OF inv, of ?pid f] alloc_old [of f ?pid] by auto
    then show ?case
      using inv_basic(3) [OF inv] dist by (auto simp: pq distinct_map inj_on_def)
  next
    case (7 p f)
    then consider "p = ?pid" "f \<in> set frames" | "(p, f) \<in> set (page_queue s)"
      by (auto simp: pq split: if_splits)
    then show ?case
    proof cases
      case 1
      then show ?thesis using free [of f] nth [of f] by (simp add: len)
    next
      case 2
      note e = inv_queue_frames [OF inv 2]
      then show ?thesis using alloc_old [OF e] nth [of f] by (simp add: len)
    qed
  next
    case (8 a g t)
    then consider "a = Some ?pid" "g \<in> set frames" | "((a, g), t) \<in> set (page_access_time s)"
      using set_foldl_update_time [of "\<lambda>f. (Some ?pid, f)" "memory_accesses s"
          "page_access_time s" frames]
      by (auto simp: pat split: if_splits)
    then show ?case
    proof cases
      case 1
      then show ?thesis using free [of g] nth [of g] by (simp add: len)
    next
      case 2
      from inv_time_frames [OF inv 2] obtain q where q: "a = Some q" "g < length (memory s)"
        "memory s ! g = allocated_frame q" by auto
      then show ?thesis using alloc_old [OF q(2,3)] nth [of g] by (simp add: len)
    qed
  next
    case 9
    then show ?case using inv_basic(4) [OF inv] by (simp add: pq alg)
  next
    case 10
    then show ?case using inv_basic(5) [OF inv] by (simp add: pat alg)
  qed
  then show ?thesis by (simp only: t_def)
qed

lemma allocate_memory_inv:
  assumes inv: "engine_inv s"
  shows "engine_inv (snd (allocate_memory s sz))"
proof (cases "page_size s = 0 \<or> total_frames s < num_pages_needed s sz")
  case True
  then show ?thesis using inv by (auto simp: allocate_memory_def)
next
  case False
  define n where "n = num_pages_needed s sz"
  define short where "short = (int (length (free_frames s)) < n)"
  define s1 where "s1 = (if short then replace_pages (n - int (length (free_frames s))) s else s)"
  define frames where "frames = py_take n (free_frames s1)"
  define s3 where "s3 = foldl (allocate_frame (next_id s1) frames) (s1\<lparr>next_id := next_id s1 + 1\<rparr>) frames"
  have inv1: "engine_inv s1" using inv by (simp add: s1_def replace_pages_inv)
  have fr: "(if short then free_frames s1 else free_frames s) = free_frames s1"
    by (simp add: s1_def)
  have "engine_inv s3"
    unfolding s3_def using inv1
    by (rule allocate_loop_inv) (simp_all add: frames_def set_py_take distinct_py_take distinct_free_frames)
  moreover have "snd (allocate_memory s sz)
      = s3\<lparr>operations := operations s3 @ [OpAllocate (next_id s1) sz frames]\<rparr>"
    using False
    unfolding allocate_memory_def Let_def n_def [symmetric] short_def [symmetric]
      s1_def [symmetric] fr frames_def [symmetric] s3_def [symmetric]
    by (simp split: list.splits)
  ultimately show ?thesis by simp
qed

subsection \<open>Access\<close>

lemma status_not_allocated [simp]:
  "status fr \<noteq> Allocated \<longleftrightarrow> status fr = Free"
  "status fr \<noteq> Free \<longleftrightarrow> status fr = Allocated"
  by (cases "status fr"; simp)+

lemma handle_page_fault_as_loop:
  assumes "engine_inv s" and "status (memory s ! i) = Free"
  shows "handle_page_fault s i
       = foldl (allocate_frame (next_id s) [i]) (s\<lparr>next_id := next_id s + 1\<rparr>) [i]"
proof -
  have "map_of (page_table s) (next_id s) = None"
  proof (cases "map_of (page_table s) (next_id s)")
    case (Some fs)
    then have "(next_id s, fs) \<in> set (page_table s)" by (rule map_of_SomeD)
    from inv_basic(6) [OF assms(1) this] show ?thesis by simp
  qed simp
  then show ?thesis
    using assms(2) by (simp add: handle_page_fault_def allocate_frame_def Let_def)
qed

lemma handle_page_fault_inv:
  assumes "engine_inv s" and "i < length (memory s)" and "status (memory s ! i) = Free"
  shows "engine_inv (handle_page_fault s i)"
  unfolding handle_page_fault_as_loop [OF assms(1,3)]
  using assms by (intro allocate_loop_inv) (simp_all add: set_free_frames)

lemma touch_inv:
  assumes inv: "engine_inv s" and "i < length (memory s)"
    and "status (memory s ! i) = Allocated" and "algorithm s = ''LRU''"
  shows "engine_inv (s\<lparr>page_access_time :=
            AList.update (frame_id (memory s ! i), i) t (page_access_time s)\<rparr>)"
proof -
  from inv_allocated_entry [OF assms(1,2,3)] obtain p where
    p: "memory s ! i = allocated_frame p" by blast
  show ?thesis
  proof (rule engine_invI, goal_cases)
    case 1
    show ?case using inv_basic(1) [OF inv] by simp
  next
    case 2
    show ?case using inv_basic(2) [OF inv] by simp
  next
    case (3 j)
    then have "j < length (memory s)" "status (memory s ! j) = Allocated" by simp_all
    from inv_allocated_entry [OF inv this]
    obtain q fs where "memory s ! j = allocated_frame q" "(q, fs) \<in> set (page_table s)"
      "j \<in> set fs" by blast
    then show ?case by (intro exI [of _ q] exI [of _ fs]) simp
  next
    case (4 q fs)
    then show ?case using inv_basic(6) [OF inv] by simp
  next
    case (5 q fs f)
    then show ?case using inv_entry_frames [OF inv, of q fs f] by simp
  next
    case 6
    show ?case using inv_basic(3) [OF inv] by simp
  next
    case (7 q f)
    then show ?case using inv_queue_frames [OF inv, of q f] by simp
  next
    case (8 a g u)
    then have "((a, g), u) = ((Some p, i), t) \<or> ((a, g), u) \<in> set (page_access_time s)"
      using set_update_subset [of "(Some p, i)" t "page_access_time s"] p by auto
    then show ?case
    proof
      assume "((a, g), u) = ((Some p, i), t)"
      then show ?thesis using p assms(2) by simp
    next
      assume m: "((a, g), u) \<in> set (page_access_time s)"
      from inv_time_frames [OF inv m] show ?thesis by auto
    qed
  next
    case 9
    then show ?case using inv_basic(4) [OF inv] by simp
  next
    case 10
    then show ?case using assms(4) by simp
  qed
qed

lemma access_memory_inv:
  assumes inv: "engine_inv s"
  shows "engine_inv (snd (access_memory s address))"
proof (cases "page_size s = 0 \<or> access_frame_num s address < 0
    \<or> int (length (memory s)) \<le> access_frame_num s address")
  case True
  then show ?thesis using inv by (auto simp: access_memory_def Let_def)
next
  case False
  define i where "i = nat (access_frame_num s address)"
  have il: "i < length (memory s)" using False by (simp add: i_def nat_less_iff)
  show ?thesis
  proof (cases "status (memory s ! i) = Allocated")
    case True
    define s2 where
      "s2 = s\<lparr>memory_accesses := memory_accesses s + 1, page_hits := page_hits s + 1\<rparr>"
    have inv2: "engine_inv s2" using inv by (simp add: s2_def)
    have "engine_inv (s2\<lparr>page_access_time :=
            AList.update (frame_id (memory s2 ! i), i) (memory_accesses s + 1)
              (page_access_time s2)\<rparr>)" if "algorithm s = ''LRU''"
      using inv2 by (rule touch_inv) (use il True that in \<open>simp_all add: s2_def\<close>)
    then show ?thesis
      using False True inv2 unfolding access_memory_def Let_def i_def [symmetric]
      by (simp add: i_def [symmetric] s2_def)
  next
    case f: False
    then have fr: "status (memory s ! i) = Free" by simp
    have "engine_inv (handle_page_fault
        (s\<lparr>memory_accesses := memory_accesses s + 1, page_faults := page_faults s + 1\<rparr>) i)"
      using inv il fr by (intro handle_page_fault_inv) simp_all
    then show ?thesis
      using False fr unfolding access_memory_def Let_def i_def [symmetric]
      by (simp add: i_def [symmetric])
  qed
qed

lemma new_engine_inv:
  assumes "new_engine tech msize psize alg = Inr e"
  shows "engine_inv e"
proof -
  note f = new_engine_fields [OF assms]
  show ?thesis
    by (rule engine_invI) (use f in simp_all)
qed

subsection \<open>The deallocation loop\<close>

lemma remove_owner_times:
  "foldl (\<lambda>d key. AList.delete key d) d (filter (\<lambda>k. fst k = Some p) (map fst d))
     = filter (\<lambda>e. fst (fst e) \<noteq> Some p) d"
  unfolding foldl_delete_filter by (rule filter_cong) auto

lemma foldl_deallocate_frame:
  "memory (foldl (deallocate_frame p) s fs) = foldl (\<lambda>m f. m[f := free_frame]) (memory s) fs
   \<and> page_queue (foldl (deallocate_frame p) s fs)
      = (if algorithm s = ''FIFO'' \<and> (\<exists>f \<in> set fs. f < length (memory s))
         then filter (\<lambda>q. fst q \<noteq> p) (page_queue s) else page_queue s)
   \<and> page_access_time (foldl (deallocate_frame p) s fs)
      = (if algorithm s \<noteq> ''FIFO'' \<and> algorithm s = ''LRU'' \<and> (\<exists>f \<in> set fs. f < length (memory s))
         then filter (\<lambda>e. fst (fst e) \<noteq> Some p) (page_access_time s)
         else page_access_time s)
   \<and> page_table (foldl (deallocate_frame p) s fs) = page_table s
   \<and> next_id (foldl (deallocate_frame p) s fs) = next_id s
   \<and> algorithm (foldl (deallocate_frame p) s fs) = algorithm s
   \<and> page_size (foldl (deallocate_frame p) s fs) = page_size s
   \<and> operations (foldl (deallocate_frame p) s fs) = operations s"
proof (induction fs arbitrary: s)
  case Nil
  show ?case by simp
next
  case (Cons f fs)
  define s' where "s' = deallocate_frame p s f"
  have flds: "memory s' = (memory s)[f := free_frame]"
    "page_queue s' = (if algorithm s = ''FIFO'' \<and> f < length (memory s)
       then filter (\<lambda>q. fst q \<noteq> p) (page_queue s) else page_queue s)"
    "page_access_time s' = (if algorithm s \<noteq> ''FIFO'' \<and> algorithm s = ''LRU''
         \<and> f < length (memory s)
       then filter (\<lambda>e. fst (fst e) \<noteq> Some p) (page_access_time s)
       else page_access_time s)"
    "page_table s' = page_table s"
    "next_id s' = next_id s" "algorithm s' = algorithm s" "page_size s' = page_size s"
    "operations s' = operations s"
    by (simp_all add: s'_def deallocate_frame_def Let_def remove_owner_times list_update_beyond)
  have "foldl (deallocate_frame p) s (f # fs) = foldl (deallocate_frame p) s' fs"
    by (simp add: s'_def)
  then show ?case
    using Cons.IH [of s'] by (auto simp add: flds)
qed

text \<open>
  The engine a successful deallocation of owner \<open>p\<close> leaves, resolved to frame \<open>i\<close>, with
  \<open>fs\<close> the frames of the owner's page-table entry.
\<close>

lemma deallocate_memory_resolved:
  assumes "page_size s \<noteq> 0"
    and "0 \<le> address div page_size s" and "address div page_size s < int (length (memory s))"
    and "deallocate_target s (nat (address div page_size s)) = Some (i, fr)"
    and "frame_id fr = Some p" and "map_of (page_table s) p = Some fs" and "fs \<noteq> []"
  shows "deallocate_memory s address
       = (Inr (),
          (foldl (deallocate_frame p) s fs)
            \<lparr>page_table := AList.delete p (page_table s),
             operations := operations s @ [OpDeallocate p (int i * page_size s) fs]\<rparr>)"
proof -
  note cf = foldl_deallocate_frame [of p s fs]
  show ?thesis
    unfolding deallocate_memory_def Let_def assms(4)
    using assms(1,2,3,5,6,7) cf by simp
qed

lemma owner_frames:
  assumes inv: "engine_inv s" and "map_of (page_table s) p = Some fs"
  shows "set fs = {j. j < length (memory s) \<and> memory s ! j = allocated_frame p}"
proof -
  have pin: "(p, fs) \<in> set (page_table s)" using assms(2) by (rule map_of_SomeD)
  have d: "distinct (map fst (page_table s))" using inv by (rule inv_basic)
  show ?thesis
  proof (intro set_eqI iffI)
    fix j assume "j \<in> set fs"
    then show "j \<in> {j. j < length (memory s) \<and> memory s ! j = allocated_frame p}"
      using inv_entry_frames [OF inv pin] by simp
  next
    fix j assume "j \<in> {j. j < length (memory s) \<and> memory s ! j = allocated_frame p}"
    then have j: "j < length (memory s)" "memory s ! j = allocated_frame p" by simp_all
    then have "status (memory s ! j) = Allocated" by simp
    from inv_allocated_entry [OF inv j(1) this] j(2)
    obtain gs where "map_of (page_table s) p = Some gs" "j \<in> set gs"
      by (metis allocated_frame_simps(7))
    then show "j \<in> set fs" using assms(2) by simp
  qed
qed

lemma deallocate_owner_effect:
  fixes s :: engine and ops :: "op_record list"
  assumes inv: "engine_inv s" and pt: "map_of (page_table s) p = Some fs" and ne: "fs \<noteq> []"
  defines "t \<equiv> (foldl (deallocate_frame p) s fs)
            \<lparr>page_table := AList.delete p (page_table s), operations := ops\<rparr>"
  shows "engine_inv t"
    and "length (memory t) = length (memory s)"
    and "\<And>j. j < length (memory s) \<Longrightarrow>
           memory t ! j = (if memory s ! j = allocated_frame p then free_frame else memory s ! j)"
    and "map_of (page_table t) p = None"
    and "\<And>f. (p, f) \<notin> set (page_queue t)"
    and "\<And>f u. ((Some p, f), u) \<notin> set (page_access_time t)"
proof -
  note cf = foldl_deallocate_frame [of p s fs]
  note own = owner_frames [OF inv pt]
  have ex: "\<exists>f \<in> set fs. f < length (memory s)"
    using ne own by (cases fs) auto
  have mem: "memory t = foldl (\<lambda>m f. m[f := free_frame]) (memory s) fs"
    and pq: "page_queue t = (if algorithm s = ''FIFO''
       then filter (\<lambda>q. fst q \<noteq> p) (page_queue s) else page_queue s)"
    and pat: "page_access_time t = (if algorithm s \<noteq> ''FIFO'' \<and> algorithm s = ''LRU''
       then filter (\<lambda>e. fst (fst e) \<noteq> Some p) (page_access_time s)
       else page_access_time s)"
    and ptt: "page_table t = AList.delete p (page_table s)"
    and nid: "next_id t = next_id s" and alg: "algorithm t = algorithm s"
    and ps: "page_size t = page_size s"
    using cf ex by (simp_all add: t_def)
  show len: "length (memory t) = length (memory s)" by (simp add: mem)
  show nth: "memory t ! j = (if memory s ! j = allocated_frame p then free_frame else memory s ! j)"
    if "j < length (memory s)" for j
    using that own by (simp add: mem foldl_update_nth)
  show "map_of (page_table t) p = None"
    by (simp add: ptt delete_conv')
  show nq: "(p, f) \<notin> set (page_queue t)" for f
    using inv_basic(4) [OF inv] by (auto simp: pq)
  show nt: "((Some p, f), u) \<notin> set (page_access_time t)" for f u
  proof (cases "algorithm s = ''LRU''")
    case True
    then show ?thesis by (auto simp: pat)
  next
    case False
    then show ?thesis using inv_basic(5) [OF inv] by (simp add: pat)
  qed
  have d: "distinct (map fst (page_table s))" using inv by (rule inv_basic)
  show "engine_inv t"
  proof (rule engine_invI, goal_cases)
    case 1
    show ?case using inv_basic(1) [OF inv] by (simp add: ps)
  next
    case 2
    show ?case using d by (simp add: ptt distinct_delete)
  next
    case (3 j)
    then have jl: "j < length (memory s)" by (simp add: len)
    then have keep: "memory s ! j \<noteq> allocated_frame p" "memory t ! j = memory s ! j"
      using 3(2) nth [OF jl] by (auto split: if_splits)
    then have "status (memory s ! j) = Allocated" using 3(2) by simp
    from inv_allocated_entry [OF inv jl this]
    obtain q gs where q: "memory s ! j = allocated_frame q" "(q, gs) \<in> set (page_table s)"
      "j \<in> set gs" by blast
    then have "q \<noteq> p" using keep(1) by auto
    then have "(q, gs) \<in> set (page_table t)" using q(2) by (simp add: ptt set_delete)
    then show ?case using q keep(2) by auto
  next
    case (4 q gs)
    then show ?case using inv_basic(6) [OF inv, of q gs] by (simp add: ptt set_delete nid)
  next
    case (5 q gs f)
    then have m: "(q, gs) \<in> set (page_table s)" "q \<noteq> p" by (simp_all add: ptt set_delete)
    note e = inv_entry_frames [OF inv m(1) 5(2)]
    then show ?case using m(2) nth [OF e(1)] by (simp add: len)
  next
    case 6
    show ?case using inv_basic(3) [OF inv] by (simp add: pq)
  next
    case (7 q f)
    then have m: "(q, f) \<in> set (page_queue s)" "q \<noteq> p"
      using nq [of f] by (auto simp: pq split: if_splits)
    note e = inv_queue_frames [OF inv m(1)]
    then show ?case using m(2) nth [OF e(1)] by (simp add: len)
  next
    case (8 a g u)
    then have m: "((a, g), u) \<in> set (page_access_time s)" "a \<noteq> Some p"
      using nt [of g u] by (auto simp: pat split: if_splits)
    from inv_time_frames [OF inv m(1)] obtain q where q: "a = Some q" "g < length (memory s)"
      "memory s ! g = allocated_frame q" by auto
    then show ?case using m(2) nth [OF q(2)] by (simp add: len)
  next
    case 9
    then show ?case using inv_basic(4) [OF inv] by (simp add: pq alg)
  next
    case 10
    then show ?case using inv_basic(5) [OF inv] by (simp add: pat alg)
  qed
qed

subsection \<open>Deallocation\<close>

lemma deallocate_target_Some:
  assumes "deallocate_target s k = Some (i, fr)" and "k < length (memory s)"
  shows "i < length (memory s)" and "fr = memory s ! i" and "status fr = Allocated"
proof -
  have "(status (memory s ! k) = Allocated \<and> i = k \<and> fr = memory s ! k)
      \<or> (i, fr) \<in> set (allocated_frames s)"
    using assms(1) by (auto simp: deallocate_target_def split: if_splits list.splits)
  then show "i < length (memory s)" and "fr = memory s ! i" and "status fr = Allocated"
    using assms(2) by (auto simp: set_allocated_frames)
qed

lemma allocated_frames_first:
  assumes "i < length (memory s)" and "status (memory s ! i) = Allocated"
    and "\<forall>j<i. status (memory s ! j) \<noteq> Allocated"
  shows "\<exists>rest. allocated_frames s = (i, memory s ! i) # rest"
proof -
  let ?m = "memory s"
  have "?m = take i ?m @ ?m ! i # drop (Suc i) ?m"
    using assms(1) by (rule id_take_nth_drop)
  then have "enumerate 0 ?m = enumerate 0 (take i ?m @ ?m ! i # drop (Suc i) ?m)" by simp
  also have "\<dots> = enumerate 0 (take i ?m) @ (i, ?m ! i) # enumerate (Suc i) (drop (Suc i) ?m)"
    using assms(1) by (simp add: enumerate_append_eq)
  finally have e: "enumerate 0 ?m
      = enumerate 0 (take i ?m) @ (i, ?m ! i) # enumerate (Suc i) (drop (Suc i) ?m)" .
  have "filter (\<lambda>(j, f). status f = Allocated) (enumerate 0 (take i ?m)) = []"
    using assms(1,3) by (auto simp: filter_empty_conv in_set_enumerate_eq)
  then show ?thesis
    unfolding allocated_frames_def by (subst e) (simp add: assms(2))
qed

lemma allocated_frames_empty:
  "allocated_frames s = [] \<longleftrightarrow> (\<forall>j<length (memory s). status (memory s ! j) \<noteq> Allocated)"
proof -
  have "allocated_frames s = [] \<longleftrightarrow> set (allocated_frames s) = {}" by simp
  also have "\<dots> \<longleftrightarrow> (\<forall>j<length (memory s). status (memory s ! j) \<noteq> Allocated)"
    unfolding set_allocated_frames by auto
  finally show ?thesis .
qed

text \<open>A deallocation that resolves to an allocated frame of a consistent engine.\<close>

lemma deallocate_memory_success:
  assumes inv: "engine_inv s"
    and "0 \<le> address div page_size s" and "address div page_size s < int (length (memory s))"
    and tg: "deallocate_target s (nat (address div page_size s)) = Some (i, fr)"
  obtains p fs where "memory s ! i = allocated_frame p" and "i < length (memory s)"
    and "map_of (page_table s) p = Some fs"
    and "deallocate_memory s address
       = (Inr (),
          (foldl (deallocate_frame p) s fs)
            \<lparr>page_table := AList.delete p (page_table s),
             operations := operations s @ [OpDeallocate p (int i * page_size s) fs]\<rparr>)"
    and "fs \<noteq> []"
proof -
  have k: "nat (address div page_size s) < length (memory s)"
    using assms(2,3) by (simp add: nat_less_iff)
  note t = deallocate_target_Some [OF tg k]
  from inv_allocated_entry [OF inv t(1)] t(2,3)
  obtain p fs where p: "memory s ! i = allocated_frame p" "i \<in> set fs"
    "map_of (page_table s) p = Some fs" by metis
  have ne: "fs \<noteq> []" using p(2) by auto
  have "frame_id fr = Some p" using p(1) t(2) by simp
  from deallocate_memory_resolved [OF inv_basic(1) [OF inv] assms(2,3) tg this p(3) ne]
  show thesis using that p t(1) ne by blast
qed

lemma deallocate_memory_inv:
  assumes inv: "engine_inv s"
  shows "engine_inv (snd (deallocate_memory s address))"
proof (cases "fst (deallocate_memory s address)")
  case (Inl e)
  then show ?thesis using deallocate_error_state [of s address e] inv by simp
next
  case (Inr u)
  have ps: "page_size s \<noteq> 0" using inv by (rule inv_basic)
  have b: "0 \<le> address div page_size s" "address div page_size s < int (length (memory s))"
    using Inr ps by (auto simp: deallocate_memory_def Let_def split: if_splits)
  obtain i fr where tg: "deallocate_target s (nat (address div page_size s)) = Some (i, fr)"
    using Inr ps b by (cases "deallocate_target s (nat (address div page_size s))")
      (auto simp: deallocate_memory_def Let_def)
  from deallocate_memory_success [OF inv b tg]
  obtain p fs where r: "map_of (page_table s) p = Some fs" "fs \<noteq> []"
    "deallocate_memory s address
       = (Inr (),
          (foldl (deallocate_frame p) s fs)
            \<lparr>page_table := AList.delete p (page_table s),
             operations := operations s @ [OpDeallocate p (int i * page_size s) fs]\<rparr>)"
    by metis
  show ?thesis
    unfolding r(3) snd_conv using inv r(1,2) by (rule deallocate_owner_effect(1))
qed

subsection \<open>Reachable engines\<close>

lemma apply_operation_inv: "engine_inv s \<Longrightarrow> engine_inv (apply_operation s op)"
  by (cases op) (simp_all add: allocate_memory_inv deallocate_memory_inv access_memory_inv)

lemma reachable_inv: "reachable s \<Longrightarrow> engine_inv s"
  by (induction rule: reachable.induct) (simp_all add: new_engine_inv apply_operation_inv)

lemma reachable_run: "reachable s \<Longrightarrow> reachable (run_operations s ops)"
  unfolding run_operations_def
  by (induction ops arbitrary: s) (simp_all add: reachable.step)

lemma inv_allocated_eq_page_table:
  assumes inv: "engine_inv s"
  shows "allocated_indices s = page_table_frames s"
proof (intro set_eqI iffI)
  fix i assume "i \<in> allocated_indices s"
  then have i: "i < length (memory s)" "status (memory s ! i) = Allocated"
    by (auto simp: allocated_indices_def set_allocated_frames)
  from inv_allocated_entry [OF inv i] obtain p fs where
    "(p, fs) \<in> set (page_table s)" "i \<in> set fs" by blast
  then show "i \<in> page_table_frames s" by (auto simp: page_table_frames_def)
next
  fix i assume "i \<in> page_table_frames s"
  then obtain p fs where m: "(p, fs) \<in> set (page_table s)" "i \<in> set fs"
    by (auto simp: page_table_frames_def)
  note e = inv_entry_frames [OF inv m]
  then have "(i, memory s ! i) \<in> set (allocated_frames s)"
    by (simp add: set_allocated_frames)
  then show "i \<in> allocated_indices s"
    unfolding allocated_indices_def by (rule image_eqI [rotated]) simp
qed

subsection \<open>Example runs\<close>

lemmas dealloc_eval_defs = deallocate_memory_def deallocate_target_def deallocate_frame_def
  allocated_frames_def free_frame_def allocated_frame_def Let_def

lemma mixed_run_eq:
  "run_operations (engine4 ''LRU'')
     [Allocate 128, Access 200, Deallocate 0, Allocate 256, Access 70, Deallocate 999]
   = \<lparr>technique = ''paging'', memory_size = 256, page_size = 64, algorithm = ''LRU'',
      total_frames = 4,
      memory = [allocated_frame 3, allocated_frame 3, allocated_frame 3, allocated_frame 3],
      page_table = [(3, [0, 1, 2, 3])], page_queue = [],
      page_access_time =
        [((Some 3, 0), 1), ((Some 3, 1), 2), ((Some 3, 2), 1), ((Some 3, 3), 1)],
      page_faults = 2, memory_accesses = 2, page_hits = 1,
      operations =
        [OpAllocate 1 128 [0, 1], OpAccess 200 Fault, OpDeallocate 1 0 [0, 1],
         OpAllocate 3 256 [0, 1, 2, 3], OpAccess 70 Hit],
      next_id = 4\<rparr>"
  by (simp add: run_operations_def engine4_def eval_defs num_pages_needed_def
        dealloc_eval_defs access_memory_def access_frame_num_def handle_page_fault_def)

lemma three_frame_owner_eq:
  "three_frame_owner
     = \<lparr>technique = ''paging'', memory_size = 256, page_size = 64, algorithm = ''LRU'',
        total_frames = 4,
        memory = [allocated_frame 1, allocated_frame 1, allocated_frame 1, free_frame],
        page_table = [(1, [0, 1, 2])], page_queue = [],
        page_access_time = [((Some 1, 0), 0), ((Some 1, 1), 0), ((Some 1, 2), 0)],
        page_faults = 0, memory_accesses = 0, page_hits = 0,
        operations = [OpAllocate 1 192 [0, 1, 2]], next_id = 2\<rparr>"
  by (simp add: three_frame_owner_def run_operations_def engine4_def eval_defs
        num_pages_needed_def)

lemma fallback_example_eq:
  "fallback_example
     = \<lparr>technique = ''paging'', memory_size = 256, page_size = 64, algorithm = ''FIFO'',
        total_frames = 4,
        memory = [free_frame, allocated_frame 2, allocated_frame 2, free_frame],
        page_table = [(2, [1, 2])], page_queue = [(2, 1), (2, 2)],
        page_access_time = [],
        page_faults = 0, memory_accesses = 0, page_hits = 0,
        operations = [OpAllocate 1 64 [0], OpAllocate 2 128 [1, 2], OpDeallocate 1 0 [0]],
        next_id = 3\<rparr>"
  by (simp add: fallback_example_def run_operations_def engine4_def eval_defs
        num_pages_needed_def dealloc_eval_defs)

lemma reachable_engine4: "reachable (engine4 alg)"
  using new_engine4 by (rule reachable.fresh)

subsection \<open>Frames and page table\<close>

text \<open>
  C1. Start from any engine the constructor returns and apply any sequence of allocate,
  deallocate and access operations, failing ones included. In the engine reached, the set
  of indices of allocated frames equals the union of the frame sequences of all owners in
  the page table: no allocated frame lacks a page-table entry and no entry points at a free
  frame. Every prefix of a sequence is itself a sequence, so this holds at every point.
\<close>

theorem allocated_frames_match_page_table:
  assumes "new_engine tech msize psize alg = Inr e"
  shows "allocated_indices (run_operations e ops) = page_table_frames (run_operations e ops)"
proof -
  have "reachable e" using assms by (rule reachable.fresh)
  then have "reachable (run_operations e ops)" by (rule reachable_run)
  then have "engine_inv (run_operations e ops)" by (rule reachable_inv)
  then show ?thesis by (rule inv_allocated_eq_page_table)
qed

theorem allocated_frames_match_page_table_witness:
  "new_engine ''paging'' 256 64 ''LRU'' = Inr (engine4 ''LRU'')
   \<and> allocated_indices
        (run_operations (engine4 ''LRU'')
           [Allocate 128, Access 200, Deallocate 0, Allocate 256, Access 70, Deallocate 999])
     = page_table_frames
        (run_operations (engine4 ''LRU'')
           [Allocate 128, Access 200, Deallocate 0, Allocate 256, Access 70, Deallocate 999])
   \<and> page_table_frames
        (run_operations (engine4 ''LRU'')
           [Allocate 128, Access 200, Deallocate 0, Allocate 256, Access 70, Deallocate 999])
     = {0, 1, 2, 3}"
proof -
  have h: "new_engine ''paging'' 256 64 ''LRU'' = Inr (engine4 ''LRU'')"
    by (rule new_engine4)
  have v: "page_table_frames
        (run_operations (engine4 ''LRU'')
           [Allocate 128, Access 200, Deallocate 0, Allocate 256, Access 70, Deallocate 999])
     = {0, 1, 2, 3}"
    unfolding mixed_run_eq by (auto simp: page_table_frames_def)
  from allocated_frames_match_page_table [OF h] h v show ?thesis by simp
qed

subsection \<open>Whole-allocation deallocation and the fallback\<close>

lemma deallocate_target_allocated:
  "status (memory s ! k) = Allocated \<Longrightarrow> deallocate_target s k = Some (k, memory s ! k)"
  by (simp add: deallocate_target_def)

lemma deallocate_effect:
  assumes inv: "engine_inv s"
    and b: "0 \<le> address div page_size s" "address div page_size s < int (length (memory s))"
    and tg: "deallocate_target s (nat (address div page_size s)) = Some (i, fr)"
  shows "fst (deallocate_memory s address) = Inr ()"
    and "length (memory (snd (deallocate_memory s address))) = length (memory s)"
    and "\<And>j. j < length (memory s) \<Longrightarrow>
           memory (snd (deallocate_memory s address)) ! j
             = (if memory s ! j = memory s ! i then free_frame else memory s ! j)"
    and "\<And>p. frame_id (memory s ! i) = Some p \<Longrightarrow>
           map_of (page_table (snd (deallocate_memory s address))) p = None
           \<and> (\<forall>f. (p, f) \<notin> set (page_queue (snd (deallocate_memory s address))))
           \<and> (\<forall>f u. ((Some p, f), u) \<notin> set (page_access_time (snd (deallocate_memory s address))))"
    and "\<And>p fs f. frame_id (memory s ! i) = Some p \<Longrightarrow> map_of (page_table s) p = Some fs \<Longrightarrow>
           f \<in> set fs \<Longrightarrow> f < length (memory s)
             \<and> memory (snd (deallocate_memory s address)) ! f = free_frame"
proof -
  from deallocate_memory_success [OF inv b tg]
  obtain p fs where r: "memory s ! i = allocated_frame p" "map_of (page_table s) p = Some fs"
    "fs \<noteq> []"
    "deallocate_memory s address
       = (Inr (),
          (foldl (deallocate_frame p) s fs)
            \<lparr>page_table := AList.delete p (page_table s),
             operations := operations s @ [OpDeallocate p (int i * page_size s) fs]\<rparr>)"
    by metis
  define t where "t = snd (deallocate_memory s address)"
  have t: "t = (foldl (deallocate_frame p) s fs)
            \<lparr>page_table := AList.delete p (page_table s),
             operations := operations s @ [OpDeallocate p (int i * page_size s) fs]\<rparr>"
    by (simp add: t_def r(4))
  note e = deallocate_owner_effect [OF inv r(2,3),
      where ops = "operations s @ [OpDeallocate p (int i * page_size s) fs]",
      folded t, unfolded t_def]
  show "fst (deallocate_memory s address) = Inr ()" by (simp add: r(4))
  show "length (memory (snd (deallocate_memory s address))) = length (memory s)"
    by (rule e(2))
  show nth: "memory (snd (deallocate_memory s address)) ! j
             = (if memory s ! j = memory s ! i then free_frame else memory s ! j)"
    if "j < length (memory s)" for j
    using e(3) [OF that] by (simp add: r(1))
  show "map_of (page_table (snd (deallocate_memory s address))) q = None
           \<and> (\<forall>f. (q, f) \<notin> set (page_queue (snd (deallocate_memory s address))))
           \<and> (\<forall>f u. ((Some q, f), u) \<notin> set (page_access_time (snd (deallocate_memory s address))))"
    if "frame_id (memory s ! i) = Some q" for q
  proof -
    have "q = p" using that r(1) by simp
    then show ?thesis using e(4,5,6) by simp
  qed
  show "f < length (memory s) \<and> memory (snd (deallocate_memory s address)) ! f = free_frame"
    if "frame_id (memory s ! i) = Some q" "map_of (page_table s) q = Some gs" "f \<in> set gs"
    for q gs f
  proof -
    have "q = p" using that(1) r(1) by simp
    then have "f \<in> set fs" using that(2,3) r(2) by simp
    then have "f < length (memory s)" "memory s ! f = allocated_frame p"
      using owner_frames [OF inv r(2)] by auto
    then show ?thesis using nth [of f] r(1) by simp
  qed
qed

text \<open>
  C5. In every reachable engine, take a frame \<open>i\<close> allocated to an owner \<open>p\<close> and an
  address inside that frame (its base address \<open>i * page_size\<close> in particular). Deallocating
  at that address succeeds and frees every frame allocated to \<open>p\<close>, which are exactly the
  frames of the owner's page-table entry, while all other frames stay as they are; the
  owner's page-table entry is gone, and neither the FIFO queue nor the timestamp dictionary
  keeps a pair of that owner.
\<close>

theorem deallocate_frees_whole_allocation:
  assumes "reachable s" and "i < length (memory s)" and "memory s ! i = allocated_frame p"
    and "address div page_size s = int i"
  shows "fst (deallocate_memory s address) = Inr ()
     \<and> length (memory (snd (deallocate_memory s address))) = length (memory s)
     \<and> (\<forall>j<length (memory s).
          memory (snd (deallocate_memory s address)) ! j
            = (if memory s ! j = allocated_frame p then free_frame else memory s ! j))
     \<and> (\<forall>fs. map_of (page_table s) p = Some fs \<longrightarrow>
          (\<forall>f \<in> set fs. memory (snd (deallocate_memory s address)) ! f = free_frame))
     \<and> map_of (page_table (snd (deallocate_memory s address))) p = None
     \<and> (\<forall>f. (p, f) \<notin> set (page_queue (snd (deallocate_memory s address))))
     \<and> (\<forall>f u. ((Some p, f), u) \<notin> set (page_access_time (snd (deallocate_memory s address))))"
proof -
  have inv: "engine_inv s" using assms(1) by (rule reachable_inv)
  have b: "0 \<le> address div page_size s" "address div page_size s < int (length (memory s))"
    using assms(2,4) by simp_all
  have k: "nat (address div page_size s) = i" using assms(4) by simp
  have tg: "deallocate_target s (nat (address div page_size s)) = Some (i, memory s ! i)"
    unfolding k using assms(3) by (intro deallocate_target_allocated) simp
  note e = deallocate_effect [OF inv b tg]
  have id: "frame_id (memory s ! i) = Some p" using assms(3) by simp
  have "memory (snd (deallocate_memory s address)) ! j
            = (if memory s ! j = allocated_frame p then free_frame else memory s ! j)"
    if "j < length (memory s)" for j
    using e(3) [OF that] by (simp add: assms(3))
  moreover have "memory (snd (deallocate_memory s address)) ! f = free_frame"
    if "map_of (page_table s) p = Some fs" "f \<in> set fs" for fs f
    using e(5) [OF id that] by simp
  ultimately show ?thesis
    using e(1,2) e(4) [OF id] by blast
qed

theorem deallocate_frees_whole_allocation_witness:
  "reachable three_frame_owner
   \<and> 1 < length (memory three_frame_owner)
   \<and> memory three_frame_owner ! 1 = allocated_frame 1
   \<and> 64 div page_size three_frame_owner = int 1
   \<and> fst (deallocate_memory three_frame_owner 64) = Inr ()
   \<and> memory (snd (deallocate_memory three_frame_owner 64)) ! 0 = free_frame
   \<and> memory (snd (deallocate_memory three_frame_owner 64)) ! 1 = free_frame
   \<and> memory (snd (deallocate_memory three_frame_owner 64)) ! 2 = free_frame
   \<and> map_of (page_table (snd (deallocate_memory three_frame_owner 64))) 1 = None"
proof -
  have h1: "reachable three_frame_owner"
    unfolding three_frame_owner_def using reachable_engine4 by (rule reachable_run)
  have h2: "1 < length (memory three_frame_owner)"
    and h3: "memory three_frame_owner ! 1 = allocated_frame 1"
    and h4: "64 div page_size three_frame_owner = int 1"
    by (simp_all add: three_frame_owner_eq)
  have m: "length (memory three_frame_owner) = 4"
    "memory three_frame_owner ! 0 = allocated_frame 1"
    "memory three_frame_owner ! 2 = allocated_frame 1"
    by (simp_all add: three_frame_owner_eq)
  note t = deallocate_frees_whole_allocation [OF h1 h2 h3 h4]
  from t have a: "\<forall>j<4. memory (snd (deallocate_memory three_frame_owner 64)) ! j
        = (if memory three_frame_owner ! j = allocated_frame 1 then free_frame
           else memory three_frame_owner ! j)"
    unfolding m(1) by blast
  have "memory (snd (deallocate_memory three_frame_owner 64)) ! 0 = free_frame"
    "memory (snd (deallocate_memory three_frame_owner 64)) ! 1 = free_frame"
    "memory (snd (deallocate_memory three_frame_owner 64)) ! 2 = free_frame"
    using a [rule_format, of 0] a [rule_format, of 1] a [rule_format, of 2] m(2,3) h3
    by simp_all
  moreover from t have "fst (deallocate_memory three_frame_owner 64) = Inr ()"
    "map_of (page_table (snd (deallocate_memory three_frame_owner 64))) 1 = None"
    by blast+
  ultimately show ?thesis using h1 h2 h3 h4 by simp
qed

text \<open>
  C7. In every reachable engine, take an address whose frame index is in range and whose
  frame is not allocated. If no frame at all is allocated, deallocation raises the
  nothing-allocated error and leaves the engine as it is. Otherwise let \<open>i\<close> be the first
  allocated frame in ascending index order: deallocation succeeds, it does exactly what
  deallocating at the base address of frame \<open>i\<close> does, every frame of the owner of frame
  \<open>i\<close> is freed and that owner leaves the page table.
\<close>

theorem deallocate_falls_back_to_first_allocated:
  assumes "reachable s"
    and "0 \<le> address div page_size s" and "address div page_size s < int (length (memory s))"
    and "status (memory s ! nat (address div page_size s)) \<noteq> Allocated"
  shows "((\<forall>j<length (memory s). status (memory s ! j) \<noteq> Allocated)
           \<longrightarrow> deallocate_memory s address = (Inl NothingAllocatedError, s))
     \<and> (\<forall>i. i < length (memory s) \<and> status (memory s ! i) = Allocated
             \<and> (\<forall>j<i. status (memory s ! j) \<noteq> Allocated) \<longrightarrow>
           fst (deallocate_memory s address) = Inr ()
         \<and> deallocate_memory s address = deallocate_memory s (int i * page_size s)
         \<and> (\<forall>j<length (memory s).
              memory (snd (deallocate_memory s address)) ! j
                = (if memory s ! j = memory s ! i then free_frame else memory s ! j))
         \<and> (\<forall>p. frame_id (memory s ! i) = Some p \<longrightarrow>
              map_of (page_table (snd (deallocate_memory s address))) p = None))"
proof (intro conjI allI impI)
  have inv: "engine_inv s" using assms(1) by (rule reachable_inv)
  have ps: "page_size s \<noteq> 0" using inv by (rule inv_basic)
  {
    assume "\<forall>j<length (memory s). status (memory s ! j) \<noteq> Allocated"
    then have "allocated_frames s = []" by (simp only: allocated_frames_empty)
    then show "deallocate_memory s address = (Inl NothingAllocatedError, s)"
      using ps assms(2,3,4) by (simp add: deallocate_memory_def deallocate_target_def Let_def)
  }
  fix i
  assume a: "i < length (memory s) \<and> status (memory s ! i) = Allocated
             \<and> (\<forall>j<i. status (memory s ! j) \<noteq> Allocated)"
  then obtain rest where "allocated_frames s = (i, memory s ! i) # rest"
    using allocated_frames_first [of i s] by blast
  then have tg: "deallocate_target s (nat (address div page_size s)) = Some (i, memory s ! i)"
    using assms(4) by (simp add: deallocate_target_def)
  note e = deallocate_effect [OF inv assms(2,3) tg]
  show "fst (deallocate_memory s address) = Inr ()" by (rule e(1))
  show "memory (snd (deallocate_memory s address)) ! j
      = (if memory s ! j = memory s ! i then free_frame else memory s ! j)"
    if "j < length (memory s)" for j
    using that by (rule e(3))
  show "map_of (page_table (snd (deallocate_memory s address))) p = None"
    if "frame_id (memory s ! i) = Some p" for p
    using e(4) [OF that] by simp
  have d: "(int i * page_size s) div page_size s = int i" using ps by simp
  have b': "0 \<le> (int i * page_size s) div page_size s"
    "(int i * page_size s) div page_size s < int (length (memory s))"
    using a by (simp_all add: d)
  have tg': "deallocate_target s (nat ((int i * page_size s) div page_size s))
      = Some (i, memory s ! i)"
    using a by (simp add: d deallocate_target_allocated)
  from deallocate_memory_success [OF inv assms(2,3) tg]
  obtain p fs where r: "memory s ! i = allocated_frame p" "map_of (page_table s) p = Some fs"
    "deallocate_memory s address
       = (Inr (),
          (foldl (deallocate_frame p) s fs)
            \<lparr>page_table := AList.delete p (page_table s),
             operations := operations s @ [OpDeallocate p (int i * page_size s) fs]\<rparr>)"
    by metis
  from deallocate_memory_success [OF inv b' tg']
  obtain p' fs' where r': "memory s ! i = allocated_frame p'"
    "map_of (page_table s) p' = Some fs'"
    "deallocate_memory s (int i * page_size s)
       = (Inr (),
          (foldl (deallocate_frame p') s fs')
            \<lparr>page_table := AList.delete p' (page_table s),
             operations := operations s @ [OpDeallocate p' (int i * page_size s) fs']\<rparr>)"
    by metis
  have "p' = p" using r(1) r'(1) by simp
  then have "fs' = fs" using r(2) r'(2) by simp
  show "deallocate_memory s address = deallocate_memory s (int i * page_size s)"
    unfolding r(3) r'(3) \<open>p' = p\<close> \<open>fs' = fs\<close> ..
qed

theorem deallocate_falls_back_to_first_allocated_witness:
  "reachable fallback_example
   \<and> status (memory fallback_example ! nat (192 div page_size fallback_example)) \<noteq> Allocated
   \<and> status (memory fallback_example ! 1) = Allocated
   \<and> status (memory fallback_example ! 0) \<noteq> Allocated
   \<and> fst (deallocate_memory fallback_example 192) = Inr ()
   \<and> deallocate_memory fallback_example 192 = deallocate_memory fallback_example 64
   \<and> memory (snd (deallocate_memory fallback_example 192)) ! 2 = free_frame
   \<and> reachable (engine4 ''FIFO'')
   \<and> deallocate_memory (engine4 ''FIFO'') 192 = (Inl NothingAllocatedError, engine4 ''FIFO'')"
proof -
  have h1: "reachable fallback_example"
    unfolding fallback_example_def using reachable_engine4 by (rule reachable_run)
  have h2: "0 \<le> 192 div page_size fallback_example"
    and h3: "192 div page_size fallback_example < int (length (memory fallback_example))"
    and h4: "status (memory fallback_example ! nat (192 div page_size fallback_example))
        \<noteq> Allocated"
    by (simp_all add: fallback_example_eq)
  have first: "1 < length (memory fallback_example)
      \<and> status (memory fallback_example ! 1) = Allocated
      \<and> (\<forall>j<1. status (memory fallback_example ! j) \<noteq> Allocated)"
    by (simp add: fallback_example_eq)
  have m: "page_size fallback_example = 64" "length (memory fallback_example) = 4"
    "memory fallback_example ! 2 = memory fallback_example ! 1"
    "status (memory fallback_example ! 0) \<noteq> Allocated"
    by (simp_all add: fallback_example_eq)
  note t = deallocate_falls_back_to_first_allocated [OF h1 h2 h3 h4]
  from t first have r: "fst (deallocate_memory fallback_example 192) = Inr ()"
    "deallocate_memory fallback_example 192
       = deallocate_memory fallback_example (int 1 * page_size fallback_example)"
    "\<forall>j<length (memory fallback_example).
        memory (snd (deallocate_memory fallback_example 192)) ! j
          = (if memory fallback_example ! j = memory fallback_example ! 1 then free_frame
             else memory fallback_example ! j)"
    by blast+
  have r2: "memory (snd (deallocate_memory fallback_example 192)) ! 2 = free_frame"
    using r(3) m(2,3) by simp
  have g1: "reachable (engine4 ''FIFO'')" by (rule reachable_engine4)
  have g: "0 \<le> 192 div page_size (engine4 ''FIFO'')"
    "192 div page_size (engine4 ''FIFO'') < int (length (memory (engine4 ''FIFO'')))"
    "status (memory (engine4 ''FIFO'') ! nat (192 div page_size (engine4 ''FIFO''))) \<noteq> Allocated"
    "\<forall>j<length (memory (engine4 ''FIFO'')). status (memory (engine4 ''FIFO'') ! j) \<noteq> Allocated"
    by (simp_all add: engine4_def less_Suc_eq numeral_eq_Suc)
  from deallocate_falls_back_to_first_allocated [OF g1 g(1,2,3)] g(4)
  have e: "deallocate_memory (engine4 ''FIFO'') 192 = (Inl NothingAllocatedError, engine4 ''FIFO'')"
    by blast
  show ?thesis
    using h1 h4 first m(4) r(1) r(2) r2 g1 e by (simp add: m(1))
qed

section \<open>Properties of the tutorial driver\<close>

lemma verify_step_resolved:
  assumes "current_tutorial tm = Some tutorial_id" and "tutorial_id \<noteq> []"
    and "map_of (tutorials tm) tutorial_id = Some steps"
    and "current_step tm < length steps"
    and "expected_operation (steps ! current_step tm) = Some expected"
  shows "verify_step_completed parse tm performed =
     (if expected_type expected = Some ''reset'' then
        Inr (dict_get (op_type performed) JNull = JString ''reset'')
      else if expected_type_value expected \<noteq> dict_get (op_type performed) JNull then Inr False
      else if expected_type expected = Some ''allocate'' \<and> expected_size expected \<noteq> None then
        (case py_int parse (dict_get (op_size performed) (JInt 0)) of
           Inl e \<Rightarrow> Inl e
         | Inr n \<Rightarrow> Inr (Some n = expected_size expected))
      else if expected_type expected = Some ''access'' \<and> expected_address expected \<noteq> None then
        (case py_int parse (dict_get (op_address performed) (JInt (- 1))) of
           Inl e \<Rightarrow> Inl e
         | Inr a \<Rightarrow> Inr (Some a = expected_address expected))
      else if expected_type expected = Some ''deallocate'' then Inr True
      else Inr False)"
  using assms by (simp add: verify_step_completed_def)

lemma optimization_at_step:
  assumes "i < 7"
  shows "current_tutorial (optimization_at i) = Some ''optimization''"
    and "map_of (tutorials (optimization_at i)) ''optimization'' = Some optimization_tutorial"
    and "current_step (optimization_at i) < length optimization_tutorial"
    and "current_step (optimization_at i) = i"
  using assms by (simp_all add: optimization_at_def optimization_tutorial_def)

text \<open>
  The conversion is part of the comparison: on the step that expects an allocate of 64
  bytes, a size \<^verbatim>\<open>null\<close> raises, a string the parser refuses raises, the float 64.9 is
  truncated to 64 and accepted, and an absent size counts as 0.
\<close>

lemma floor_64_9: "\<lfloor>649 / 10 :: rat\<rfloor> = 64"
  by (rule floor_unique) simp_all

lemma verify_step_size_conversion:
  "verify_step_completed parse (optimization_at 2)
       \<lparr>op_type = Some (JString ''allocate''), op_size = Some JNull, op_address = None\<rparr>
     = Inl TypeError"
  "parse s = None \<Longrightarrow>
   verify_step_completed parse (optimization_at 2)
       \<lparr>op_type = Some (JString ''allocate''), op_size = Some (JString s), op_address = None\<rparr>
     = Inl ValueError"
  "verify_step_completed parse (optimization_at 2)
       \<lparr>op_type = Some (JString ''allocate''), op_size = Some (JFloat (649 / 10)),
        op_address = None\<rparr>
     = Inr True"
  "verify_step_completed parse (optimization_at 2)
       \<lparr>op_type = Some (JString ''allocate''), op_size = None, op_address = None\<rparr>
     = Inr False"
  by (simp_all add: verify_step_completed_def optimization_at_def optimization_tutorial_def
        expected_type_value_def dict_get_def py_int_def floor_64_9)

text \<open>
  Where the expected operation is a reset, a deallocate, an allocate with a size other than
  0 or an access with an address other than \<open>-1\<close> (every expected operation of the tutorial
  table but the size-less allocate is of these kinds), and the performed size and address
  are absent or integers, the function computes the rule as the specification words it.
\<close>

lemma verify_step_agrees_with_spec:
  assumes "current_tutorial tm = Some tutorial_id" and "tutorial_id \<noteq> []"
    and "map_of (tutorials tm) tutorial_id = Some steps"
    and "current_step tm < length steps"
    and "expected_operation (steps ! current_step tm) = Some expected"
    and kind: "expected_type expected = Some ''reset''
       \<or> expected_type expected = Some ''deallocate''
       \<or> (expected_type expected = Some ''allocate''
            \<and> (\<exists>n. expected_size expected = Some n \<and> n \<noteq> 0))
       \<or> (expected_type expected = Some ''access''
            \<and> (\<exists>a. expected_address expected = Some a \<and> a \<noteq> - 1))"
    and sz: "op_size performed = None \<or> (\<exists>m. op_size performed = Some (JInt m))"
    and ad: "op_address performed = None \<or> (\<exists>b. op_address performed = Some (JInt b))"
  shows "verify_step_completed parse tm performed
       = Inr (spec_step_satisfied (steps ! current_step tm) performed)"
proof -
  note r = verify_step_resolved [OF assms(1-5), of parse performed]
  from kind consider (reset) "expected_type expected = Some ''reset''"
    | (dealloc) "expected_type expected = Some ''deallocate''"
    | (alloc) n where "expected_type expected = Some ''allocate''"
        "expected_size expected = Some n" "n \<noteq> 0"
    | (access) a where "expected_type expected = Some ''access''"
        "expected_address expected = Some a" "a \<noteq> - 1"
    by blast
  then show ?thesis
  proof cases
    case reset
    then show ?thesis
      unfolding r by (auto simp: spec_step_satisfied_def assms(5) expected_type_value_def)
  next
    case dealloc
    then show ?thesis
      unfolding r by (auto simp: spec_step_satisfied_def assms(5) expected_type_value_def)
  next
    case alloc
    then show ?thesis
      unfolding r using sz
      by (auto simp: spec_step_satisfied_def assms(5) expected_type_value_def
            dict_get_def py_int_def)
  next
    case access
    then show ?thesis
      unfolding r using ad
      by (auto simp: spec_step_satisfied_def assms(5) expected_type_value_def
            dict_get_def py_int_def)
  qed
qed

text \<open>
  The sibling branch: on the step "Compaction" any deallocate-typed operation is accepted,
  whatever else it carries.
\<close>

lemma compaction_accepts_any_deallocate:
  "verify_step_completed parse (optimization_at 4)
     \<lparr>op_type = Some (JString ''deallocate''), op_size = sz, op_address = ad\<rparr> = Inr True"
  by (simp add: verify_step_completed_def optimization_at_def optimization_tutorial_def
        expected_type_value_def dict_get_def)

text \<open>
  On the step "Optimization Challenge" the rule of the specification accepts an allocate
  that, like the expected operation, names no size.
\<close>

lemma optimization_challenge_spec:
  "spec_step_satisfied (optimization_tutorial ! 5)
     \<lparr>op_type = Some (JString ''allocate''), op_size = None, op_address = None\<rparr>"
  by (simp add: spec_step_satisfied_def optimization_tutorial_def expected_type_value_def
        dict_get_def)

text \<open>
  C9. The function does not compute the rule on a step whose expected operation is an
  allocate without a size, such as "Optimization Challenge": the size comparison is guarded
  by \<^verbatim>\<open>'size' in expected\<close>, the branches for access and deallocate do not apply, and the
  final \<^verbatim>\<open>return False\<close> is reached. Whatever the performed operation is, also an allocate
  of any size or of none, and whatever the string parser does, the answer is false without
  any raise: the step cannot be completed by a verified operation.
\<close>

theorem size_less_allocate_step_never_satisfied:
  assumes "current_tutorial tm = Some tutorial_id" and "tutorial_id \<noteq> []"
    and "map_of (tutorials tm) tutorial_id = Some steps"
    and "current_step tm < length steps"
    and "expected_operation (steps ! current_step tm) = Some expected"
    and "expected_type expected = Some ''allocate''" and "expected_size expected = None"
  shows "verify_step_completed parse tm performed = Inr False"
  unfolding verify_step_resolved [OF assms(1-5)] using assms(6,7) by simp

theorem size_less_allocate_step_never_satisfied_witness:
  "current_tutorial (optimization_at 5) = Some ''optimization''
   \<and> map_of (tutorials (optimization_at 5)) ''optimization'' = Some optimization_tutorial
   \<and> current_step (optimization_at 5) < length optimization_tutorial
   \<and> expected_operation (optimization_tutorial ! current_step (optimization_at 5))
       = Some \<lparr>expected_type = Some ''allocate'', expected_size = None, expected_address = None\<rparr>
   \<and> verify_step_completed (\<lambda>s. None) (optimization_at 5)
        \<lparr>op_type = Some (JString ''allocate''), op_size = None, op_address = None\<rparr>
       = Inr False
   \<and> verify_step_completed (\<lambda>s. None) (optimization_at 5)
        \<lparr>op_type = Some (JString ''allocate''), op_size = Some (JInt 64), op_address = None\<rparr>
       = Inr False"
proof -
  have h1: "current_tutorial (optimization_at 5) = Some ''optimization''"
    and h2: "''optimization'' \<noteq> []"
    and h3: "map_of (tutorials (optimization_at 5)) ''optimization'' = Some optimization_tutorial"
    and h4: "current_step (optimization_at 5) < length optimization_tutorial"
    by (simp_all add: optimization_at_def optimization_tutorial_def)
  have h5: "expected_operation (optimization_tutorial ! current_step (optimization_at 5))
      = Some \<lparr>expected_type = Some ''allocate'', expected_size = None, expected_address = None\<rparr>"
    by (simp add: optimization_at_def optimization_tutorial_def)
  have h6: "expected_type \<lparr>expected_type = Some ''allocate'', expected_size = None,
      expected_address = None\<rparr> = Some ''allocate''"
    and h7: "expected_size \<lparr>expected_type = Some ''allocate'', expected_size = None,
      expected_address = None\<rparr> = None"
    by simp_all
  note t = size_less_allocate_step_never_satisfied [OF h1 h2 h3 h4 h5 h6 h7]
  from t [of "\<lambda>s. None"
        "\<lparr>op_type = Some (JString ''allocate''), op_size = None, op_address = None\<rparr>"]
    t [of "\<lambda>s. None"
        "\<lparr>op_type = Some (JString ''allocate''), op_size = Some (JInt 64), op_address = None\<rparr>"]
    h1 h3 h4 h5
  show ?thesis by simp
qed

end
